theory Spec2Isabelle
  imports Complex_Main "HOL-Library.Word" "HOL-Library.AList"
begin

section \<open>JavaScript numbers\<close>

text \<open>
  A JavaScript \<^verbatim>\<open>number\<close> is modelled as an exact rational, plus the three
  non-finite values that the source can produce from finite inputs: \<open>NaN\<close>
  (from \<^verbatim>\<open>parseInt\<close> on a non-digit, from reading a typed array out of range and
  from \<^verbatim>\<open>0/0\<close>) and the two infinities (from a division by zero). Binary
  floating-point rounding of the finite values and the sign of zero are not modelled.
\<close>

datatype number = Fin rat | PInf | NInf | NaN

fun js_neg :: "number \<Rightarrow> number" where
  "js_neg (Fin a) = Fin (- a)"
| "js_neg PInf = NInf"
| "js_neg NInf = PInf"
| "js_neg NaN = NaN"

fun js_add :: "number \<Rightarrow> number \<Rightarrow> number" where
  "js_add (Fin a) (Fin b) = Fin (a + b)"
| "js_add NaN _ = NaN"
| "js_add _ NaN = NaN"
| "js_add PInf NInf = NaN"
| "js_add NInf PInf = NaN"
| "js_add PInf _ = PInf"
| "js_add NInf _ = NInf"
| "js_add (Fin a) b = b"

definition js_sub :: "number \<Rightarrow> number \<Rightarrow> number" where
  "js_sub a b = js_add a (js_neg b)"

text \<open>The sign of a number that is not \<open>NaN\<close>: an infinity times it keeps or flips.\<close>

fun js_scale_inf :: "number \<Rightarrow> rat \<Rightarrow> number" where
  "js_scale_inf i b = (if b = 0 then NaN else if 0 < b then i else js_neg i)"

fun js_mul :: "number \<Rightarrow> number \<Rightarrow> number" where
  "js_mul (Fin a) (Fin b) = Fin (a * b)"
| "js_mul NaN _ = NaN"
| "js_mul _ NaN = NaN"
| "js_mul (Fin a) b = js_scale_inf b a"
| "js_mul a (Fin b) = js_scale_inf a b"
| "js_mul PInf PInf = PInf"
| "js_mul NInf NInf = PInf"
| "js_mul PInf NInf = NInf"
| "js_mul NInf PInf = NInf"

fun js_div :: "number \<Rightarrow> number \<Rightarrow> number" where
  "js_div (Fin a) (Fin b) =
     (if b = 0 then (if a = 0 then NaN else if 0 < a then PInf else NInf)
      else Fin (a / b))"
| "js_div NaN _ = NaN"
| "js_div _ NaN = NaN"
| "js_div (Fin a) _ = Fin 0"
| "js_div a (Fin b) = (if 0 \<le> b then a else js_neg a)"
| "js_div _ _ = NaN"

fun js_abs :: "number \<Rightarrow> number" where
  "js_abs (Fin a) = Fin \<bar>a\<bar>"
| "js_abs PInf = PInf"
| "js_abs NInf = PInf"
| "js_abs NaN = NaN"

text \<open>\<^verbatim>\<open>Math.round\<close>: the nearest integer, a tie going up.\<close>

definition round_rat :: "rat \<Rightarrow> int" where
  "round_rat a = \<lfloor>a + 1 / 2\<rfloor>"

fun Math_round :: "number \<Rightarrow> number" where
  "Math_round (Fin a) = Fin (of_int (round_rat a))"
| "Math_round n = n"

text \<open>The remainder \<^verbatim>\<open>a % b\<close> of two finite numbers, \<open>b\<close> not zero: the quotient is
  truncated towards zero, so the result has the sign of \<open>a\<close>.\<close>

definition trunc_rat :: "rat \<Rightarrow> int" where
  "trunc_rat a = (if 0 \<le> a then \<lfloor>a\<rfloor> else \<lceil>a\<rceil>)"

definition js_rem :: "rat \<Rightarrow> rat \<Rightarrow> rat" where
  "js_rem a b = a - b * of_int (trunc_rat (a / b))"

section \<open>Colors\<close>

text \<open>
  \<^verbatim>\<open>type Color = ColorArray | HexColor | HSLColor\<close>: an array of numbers or a string.
  \<^verbatim>\<open>FullColorArray\<close> is an array of four numbers, here a 4-tuple. Every \<^verbatim>\<open>throw new Error(...)\<close>
  of the source is an \<open>error\<close>, named after its message; the last two are the
  exceptions of the runtime.
\<close>

datatype Color = ColorArray "number list" | ColorString string

type_synonym FullColorArray = "number \<times> number \<times> number \<times> number"

datatype error = InvalidColor | InvalidPoints | RangeError | TypeError

subsection \<open>Strings\<close>

text \<open>Characters are code units below 256. \<open>is_space\<close> is the class \<^verbatim>\<open>\s\<close> there
  (it is also the white space that \<^verbatim>\<open>parseInt\<close> skips), \<open>is_digit\<close> is \<^verbatim>\<open>\d\<close>.\<close>

definition is_space :: "char \<Rightarrow> bool" where
  "is_space c = (c \<in> set [CHR 0x09, CHR 0x0A, CHR 0x0B, CHR 0x0C, CHR 0x0D, CHR 0x20, CHR 0xA0])"

definition is_digit :: "char \<Rightarrow> bool" where
  "is_digit c = (c \<in> set ''0123456789'')"

definition digit_val :: "char \<Rightarrow> nat" where
  "digit_val c = of_char c - of_char CHR ''0''"

definition hex_val :: "char \<Rightarrow> nat option" where
  "hex_val c =
     (if c \<in> set ''0123456789'' then Some (of_char c - of_char CHR ''0'')
      else if c \<in> set ''abcdef'' then Some (of_char c - of_char CHR ''a'' + 10)
      else if c \<in> set ''ABCDEF'' then Some (of_char c - of_char CHR ''A'' + 10)
      else None)"

definition is_hex :: "char \<Rightarrow> bool" where
  "is_hex c = (hex_val c \<noteq> None)"

fun digits_value :: "nat \<Rightarrow> nat \<Rightarrow> nat list \<Rightarrow> nat" where
  "digits_value base acc [] = acc"
| "digits_value base acc (v # vs) = digits_value base (acc * base + v) vs"

text \<open>\<^verbatim>\<open>parseInt(s)\<close> on a string of decimal digits (what the groups of the
  \<^verbatim>\<open>hsl\<close> pattern hold).\<close>

definition parseInt10 :: "string \<Rightarrow> nat" where
  "parseInt10 s = digits_value 10 0 (map digit_val s)"

text \<open>\<^verbatim>\<open>parseInt(s, 16)\<close>: leading white space is skipped, then a sign, then a
  \<^verbatim>\<open>0x\<close> or \<^verbatim>\<open>0X\<close> prefix; the longest run of hexadecimal digits that follows is
  the value, whatever comes after it; no digit at all gives \<open>NaN\<close>.\<close>

definition parseInt16 :: "string \<Rightarrow> number" where
  "parseInt16 s =
     (let s1 = dropWhile is_space s;
          neg = (take 1 s1 = ''-'');
          s2 = (if take 1 s1 = ''-'' \<or> take 1 s1 = ''+'' then drop 1 s1 else s1);
          s3 = (if take 2 s2 = ''0x'' \<or> take 2 s2 = ''0X'' then drop 2 s2 else s2);
          ds = takeWhile is_hex s3
      in if ds = [] then NaN
         else let v = rat_of_nat (digits_value 16 0 (map (\<lambda>c. the (hex_val c)) ds))
              in Fin (if neg then - v else v))"

text \<open>\<^verbatim>\<open>s.startsWith(p)\<close>.\<close>

definition startsWith :: "string \<Rightarrow> string \<Rightarrow> bool" where
  "startsWith s p = (take (length p) s = p)"

text \<open>\<^verbatim>\<open>color.match(/^hsl\((\d+),\s*(\d+),\s*(\d+)\)$/)\<close>: the three groups, or
  \<open>None\<close> for \<^verbatim>\<open>null\<close>. Digits, commas and white space are disjoint classes, so the
  greedy match is the only one.\<close>

definition match_hsl :: "string \<Rightarrow> (string \<times> string \<times> string) option" where
  "match_hsl color =
     (if \<not> startsWith color ''hsl('' then None
      else let r0 = drop 4 color;
               g1 = takeWhile is_digit r0; r1 = dropWhile is_digit r0
      in if g1 = [] \<or> take 1 r1 \<noteq> '','' then None
      else let r2 = dropWhile is_space (drop 1 r1);
               g2 = takeWhile is_digit r2; r3 = dropWhile is_digit r2
      in if g2 = [] \<or> take 1 r3 \<noteq> '','' then None
      else let r4 = dropWhile is_space (drop 1 r3);
               g3 = takeWhile is_digit r4; r5 = dropWhile is_digit r4
      in if g3 = [] \<or> r5 \<noteq> '')'' then None
      else Some (g1, g2, g3))"

subsection \<open>\<^verbatim>\<open>Image.util.toColor\<close>\<close>

definition hsl_to_rgb :: "rat \<Rightarrow> rat \<Rightarrow> rat \<Rightarrow> FullColorArray" where
  "hsl_to_rgb h s l =
     (let c = l / 100 * s / 100;
          x = c * (1 - \<bar>js_rem (h / 60) 2 - 1\<bar>);
          m = l / 100 - c;
          (r, g, b) =
            (if h < 60 then (c, x, 0)
             else if h < 120 then (x, c, 0)
             else if h < 180 then (0, c, x)
             else if h < 240 then (0, x, c)
             else if h < 300 then (x, 0, c)
             else if h < 360 then (c, 0, x)
             else (0, 0, 0))
      in (Fin (of_int (round_rat ((r + m) * 255))),
          Fin (of_int (round_rat ((g + m) * 255))),
          Fin (of_int (round_rat ((b + m) * 255))),
          Fin 255))"

definition toColor :: "Color \<Rightarrow> error + FullColorArray" where
  "toColor color =
     (case color of
        ColorArray a \<Rightarrow>
          (case a of
             [r, g, b] \<Rightarrow> Inr (r, g, b, Fin 255)
           | [r, g, b, al] \<Rightarrow> Inr (r, g, b, al)
           | _ \<Rightarrow> Inl InvalidColor)
      | ColorString s \<Rightarrow>
          if startsWith s ''hsl('' then
            (case match_hsl s of
               None \<Rightarrow> Inl InvalidColor
             | Some (g1, g2, g3) \<Rightarrow>
                 Inr (hsl_to_rgb (rat_of_nat (parseInt10 g1)) (rat_of_nat (parseInt10 g2))
                                 (rat_of_nat (parseInt10 g3))))
          else if startsWith s ''#'' then
            (if length s \<noteq> 7 \<and> length s \<noteq> 9 then Inl InvalidColor
             else let hex = remove1 CHR ''#'' s;
                      r = parseInt16 (take 2 hex);
                      g = parseInt16 (take 2 (drop 2 hex));
                      b = parseInt16 (take 2 (drop 4 hex));
                      a = (if length hex = 8 then parseInt16 (take 2 (drop 6 hex)) else Fin 255)
                  in Inr (r, g, b, a))
          else Inl InvalidColor)"

section \<open>\<^verbatim>\<open>Image\<close>: the pixel buffer\<close>

text \<open>
  \<^verbatim>\<open>buffer\<close> is a \<^verbatim>\<open>Uint8ClampedArray\<close>: a list of bytes. Storing a number converts
  it with \<open>ToUint8Clamp\<close> (\<open>NaN\<close> is 0, the value is clamped to 0..255 and rounded
  to the nearest integer, a tie going to the even one); a store at an index outside the
  array is ignored (so is \<open>xs[i := v]\<close>), a read there gives \<^verbatim>\<open>undefined\<close>, which the
  source only ever uses in arithmetic, where it is \<open>NaN\<close>. \<^verbatim>\<open>width\<close> and \<^verbatim>\<open>height\<close>
  are the natural numbers that size the array in the constructor; the coordinates of a
  \<^verbatim>\<open>Point\<close>, a radius and \<^verbatim>\<open>lineThickness\<close> are finite numbers.
\<close>

type_synonym u8 = "8 word"

type_synonym Point = "rat \<times> rat"

record Image =
  width :: nat
  height :: nat
  buffer :: "u8 list"

definition new_Image :: "nat \<Rightarrow> nat \<Rightarrow> Image" where
  "new_Image w h = \<lparr>width = w, height = h, buffer = replicate (w * h * 4) 0\<rparr>"

fun ToUint8Clamp :: "number \<Rightarrow> u8" where
  "ToUint8Clamp (Fin v) =
     (if v \<le> 0 then 0
      else if 255 \<le> v then 255
      else let f = \<lfloor>v\<rfloor> in
        if of_int f + 1 / 2 < v then word_of_int (f + 1)
        else if v < of_int f + 1 / 2 then word_of_int f
        else if even f then word_of_int f else word_of_int (f + 1))"
| "ToUint8Clamp PInf = 255"
| "ToUint8Clamp NInf = 0"
| "ToUint8Clamp NaN = 0"

definition buf_read :: "u8 list \<Rightarrow> rat \<Rightarrow> number" where
  "buf_read buf i =
     (if of_int \<lfloor>i\<rfloor> = i \<and> 0 \<le> i \<and> nat \<lfloor>i\<rfloor> < length buf
      then Fin (rat_of_nat (unat (buf ! nat \<lfloor>i\<rfloor>))) else NaN)"

definition Image_get :: "Image \<Rightarrow> Point \<Rightarrow> FullColorArray" where
  "Image_get img pixel =
     (let (x, y) = pixel;
          index = (y * rat_of_nat (width img) + x) * 4
      in (buf_read (buffer img) (index + 0), buf_read (buffer img) (index + 1),
          buf_read (buffer img) (index + 2), buf_read (buffer img) (index + 3)))"

definition Image_set :: "Image \<Rightarrow> Point \<Rightarrow> Color \<Rightarrow> error + Image" where
  "Image_set img pixel color =
     (case toColor color of
        Inl e \<Rightarrow> Inl e
      | Inr (c0, c1, c2, c3) \<Rightarrow>
          let x = round_rat (fst pixel); y = round_rat (snd pixel) in
          if x < 0 \<or> x \<ge> int (width img) \<or> y < 0 \<or> y \<ge> int (height img) then Inr img
          else let index = nat ((y * int (width img) + x) * 4) in
            Inr (img\<lparr>buffer := (buffer img)
                   [index + 0 := ToUint8Clamp c0, index + 1 := ToUint8Clamp c1,
                    index + 2 := ToUint8Clamp c2, index + 3 := ToUint8Clamp c3]\<rparr>))"

text \<open>\<^verbatim>\<open>Image.add\<close>: "Sets a pixel with alpha blending".\<close>

definition blend :: "FullColorArray \<Rightarrow> FullColorArray \<Rightarrow> FullColorArray" where
  "blend currentColor colorNormalized =
     (let (r, g, b, a) = currentColor;
          (r2, g2, b2, a2) = colorNormalized;
          alpha = js_div a2 (Fin 255);
          alphaComplement = js_sub (Fin 1) alpha;
          r3 = Math_round (js_add (js_mul r alphaComplement) (js_mul r2 alpha));
          g3 = Math_round (js_add (js_mul g alphaComplement) (js_mul g2 alpha));
          b3 = Math_round (js_add (js_mul b alphaComplement) (js_mul b2 alpha));
          a3 = js_add a (js_mul a2 alphaComplement)
      in (r3, g3, b3, a3))"

definition Image_add :: "Image \<Rightarrow> Point \<Rightarrow> Color \<Rightarrow> error + Image" where
  "Image_add img pixel color =
     (let currentColor = Image_get img pixel in
      case toColor color of
        Inl e \<Rightarrow> Inl e
      | Inr colorNormalized \<Rightarrow>
          (case blend currentColor colorNormalized of
             (r3, g3, b3, a3) \<Rightarrow> Image_set img pixel (ColorArray [r3, g3, b3, a3])))"

section \<open>\<^verbatim>\<open>ImageDrawer\<close>: staged writes\<close>

text \<open>
  \<^verbatim>\<open>temporaryBuffer\<close> is a \<^verbatim>\<open>Map<number, Color>\<close>, which iterates in the order of
  first insertion: an association list, with \<^verbatim>\<open>Map.prototype.set\<close> as \<open>AList.update\<close>
  (a present key keeps its place and takes the new value, a new key goes last).
\<close>

record ImageDrawer =
  image :: Image
  blending :: bool
  lineThickness :: rat
  temporaryBuffer :: "(int \<times> Color) list"
  flushDisablers :: int

definition new_ImageDrawer :: "Image \<Rightarrow> ImageDrawer" where
  "new_ImageDrawer img =
     \<lparr>image = img, blending = True, lineThickness = 1, temporaryBuffer = [], flushDisablers = 0\<rparr>"

definition setPixel :: "Point \<Rightarrow> Color \<Rightarrow> ImageDrawer \<Rightarrow> ImageDrawer" where
  "setPixel pixel color d =
     (if fst pixel < 0 \<or> fst pixel \<ge> rat_of_nat (width (image d))
         \<or> snd pixel < 0 \<or> snd pixel \<ge> rat_of_nat (height (image d)) then d
      else let x = round_rat (fst pixel); y = round_rat (snd pixel);
               index = y * int (width (image d)) + x
           in d\<lparr>temporaryBuffer := AList.update (index + 0) color (temporaryBuffer d)\<rparr>)"

text \<open>
  A method of the drawer leaves by returning or by throwing; either way the drawer is in
  some state then. \<open>None\<close> (for the methods that have a loop which may not end) is a
  call that never leaves.
\<close>

datatype exit = Returned | Thrown error

type_synonym outcome = "exit \<times> ImageDrawer"

text \<open>\<^verbatim>\<open>index % width\<close> on integers: the remainder has the sign of \<open>index\<close>.\<close>

definition int_rem :: "int \<Rightarrow> int \<Rightarrow> int" where
  "int_rem k w = sgn k * (\<bar>k\<bar> mod \<bar>w\<bar>)"

text \<open>
  One entry of the loop in \<^verbatim>\<open>flush\<close>. With \<^verbatim>\<open>width\<close> 0 the pixel is
  \<^verbatim>\<open>[NaN, \<plusminus>Infinity or NaN]\<close>: \<^verbatim>\<open>add\<close> and \<^verbatim>\<open>set\<close> still normalize the color (and
  may throw), then store nothing.
\<close>

definition flush_entry :: "bool \<Rightarrow> Image \<Rightarrow> int \<times> Color \<Rightarrow> error + Image" where
  "flush_entry blnd img entry =
     (let (index, color) = entry in
      if width img = 0 then (case toColor color of Inl e \<Rightarrow> Inl e | Inr _ \<Rightarrow> Inr img)
      else let pixel = (rat_of_int (int_rem index (int (width img))),
                        rat_of_int (index div int (width img)))
           in if blnd then Image_add img pixel color else Image_set img pixel color)"

fun flush_loop :: "bool \<Rightarrow> (int \<times> Color) list \<Rightarrow> Image \<Rightarrow> exit \<times> Image" where
  "flush_loop blnd [] img = (Returned, img)"
| "flush_loop blnd (entry # entries) img =
     (case flush_entry blnd img entry of
        Inl e \<Rightarrow> (Thrown e, img)
      | Inr img' \<Rightarrow> flush_loop blnd entries img')"

definition flush :: "ImageDrawer \<Rightarrow> outcome" where
  "flush d =
     (if flushDisablers d \<noteq> 0 then (Returned, d)
      else case flush_loop (blending d) (temporaryBuffer d) (image d) of
             (Thrown e, img') \<Rightarrow> (Thrown e, d\<lparr>image := img'\<rparr>)
           | (Returned, img') \<Rightarrow> (Returned, d\<lparr>image := img', temporaryBuffer := []\<rparr>))"

section \<open>Shapes\<close>

text \<open>\<^verbatim>\<open>for (let i = lo; i <= hi; i++) body(i)\<close> on finite numbers.\<close>

function for_up :: "rat \<Rightarrow> rat \<Rightarrow> (rat \<Rightarrow> 's \<Rightarrow> 's) \<Rightarrow> 's \<Rightarrow> 's" where
  "for_up i hi body s = (if i \<le> hi then for_up (i + 1) hi body (body i s) else s)"
  by pat_completeness auto
termination
proof (relation "measure (\<lambda>(i, hi, body, s). nat (\<lfloor>hi - i\<rfloor> + 1))")
  show "wf (measure (\<lambda>(i, hi, body, s). nat (\<lfloor>hi - i :: rat\<rfloor> + 1)))"
    by simp
next
  fix i hi :: rat and body :: "rat \<Rightarrow> 's \<Rightarrow> 's" and s :: 's
  assume le: "i \<le> hi"
  have "\<lfloor>hi - (i + 1)\<rfloor> = \<lfloor>hi - i\<rfloor> - 1"
    by (simp add: diff_diff_eq2 [symmetric] algebra_simps) linarith
  moreover from le have "0 \<le> \<lfloor>hi - i\<rfloor>"
    by simp
  ultimately show "((i + 1, hi, body, body i s), (i, hi, body, s))
      \<in> measure (\<lambda>(i, hi, body, s). nat (\<lfloor>hi - i\<rfloor> + 1))"
    by simp
qed

declare for_up.simps [simp del]

subsection \<open>Rectangles\<close>

definition drawFilledRectangle :: "ImageDrawer \<Rightarrow> Point \<Rightarrow> Point \<Rightarrow> Color \<Rightarrow> outcome" where
  "drawFilledRectangle d start end color =
     (let (x0, y0) = start; (x1, y1) = end
      in flush (for_up y0 y1 (\<lambda>y. for_up x0 x1 (\<lambda>x. setPixel (x, y) color)) d))"

definition drawRectangle :: "ImageDrawer \<Rightarrow> Point \<Rightarrow> Point \<Rightarrow> Color \<Rightarrow> outcome" where
  "drawRectangle d start end color =
     (let (x0, y0) = start; (x1, y1) = end;
          d1 = for_up x0 x1 (\<lambda>x s. setPixel (x, y1) color (setPixel (x, y0) color s)) d;
          d2 = for_up y0 y1 (\<lambda>y s. setPixel (x1, y) color (setPixel (x0, y) color s)) d1
      in flush d2)"

subsection \<open>Circles\<close>

text \<open>
  The loop \<^verbatim>\<open>for (let x = 0; x <= y; x++)\<close> shared by \<^verbatim>\<open>drawCircle\<close> and
  \<^verbatim>\<open>drawFilledCircle\<close>: \<open>body x y\<close> stages the pixels of one step, then \<open>y\<close> and the
  decision value \<open>dd\<close> (the source's \<^verbatim>\<open>d\<close>) are updated.
\<close>

function octant_loop ::
  "(rat \<Rightarrow> rat \<Rightarrow> ImageDrawer \<Rightarrow> ImageDrawer) \<Rightarrow> rat \<Rightarrow> rat \<Rightarrow> rat \<Rightarrow> ImageDrawer \<Rightarrow> ImageDrawer"
where
  "octant_loop body x y dd s =
     (if x \<le> y then
        (if dd > 0 then octant_loop body (x + 1) (y - 1) (dd + 4 * (x - (y - 1)) + 10) (body x y s)
         else octant_loop body (x + 1) y (dd + 4 * x + 6) (body x y s))
      else s)"
  by pat_completeness auto
termination
proof (relation "measure (\<lambda>(body, x, y, dd, s). nat (\<lfloor>y - x\<rfloor> + 1))")
  show "wf (measure (\<lambda>(body, x, y, dd, s). nat (\<lfloor>y - x :: rat\<rfloor> + 1)))"
    by simp
next
  fix body :: "rat \<Rightarrow> rat \<Rightarrow> ImageDrawer \<Rightarrow> ImageDrawer" and x y dd :: rat and s :: ImageDrawer
  assume le: "x \<le> y"
  have "\<lfloor>y - 1 - (x + 1)\<rfloor> = \<lfloor>y - x\<rfloor> - 2"
    by (simp add: algebra_simps) linarith
  moreover from le have "0 \<le> \<lfloor>y - x\<rfloor>"
    by simp
  ultimately show "((body, x + 1, y - 1, dd + 4 * (x - (y - 1)) + 10, body x y s), (body, x, y, dd, s))
      \<in> measure (\<lambda>(body, x, y, dd, s). nat (\<lfloor>y - x\<rfloor> + 1))"
    by simp
next
  fix body :: "rat \<Rightarrow> rat \<Rightarrow> ImageDrawer \<Rightarrow> ImageDrawer" and x y dd :: rat and s :: ImageDrawer
  assume le: "x \<le> y"
  have "\<lfloor>y - (x + 1)\<rfloor> = \<lfloor>y - x\<rfloor> - 1"
    by (simp add: algebra_simps) linarith
  moreover from le have "0 \<le> \<lfloor>y - x\<rfloor>"
    by simp
  ultimately show "((body, x + 1, y, dd + 4 * x + 6, body x y s), (body, x, y, dd, s))
      \<in> measure (\<lambda>(body, x, y, dd, s). nat (\<lfloor>y - x\<rfloor> + 1))"
    by simp
qed

declare octant_loop.simps [simp del]

definition circle_points :: "Point \<Rightarrow> Color \<Rightarrow> rat \<Rightarrow> rat \<Rightarrow> ImageDrawer \<Rightarrow> ImageDrawer" where
  "circle_points center color x y s =
     (let (xc, yc) = center;
          s1 = setPixel (xc + x, yc + y) color s;
          s2 = setPixel (xc - x, yc + y) color s1;
          s3 = setPixel (xc + x, yc - y) color s2;
          s4 = setPixel (xc - x, yc - y) color s3;
          s5 = setPixel (xc + y, yc + x) color s4;
          s6 = setPixel (xc - y, yc + x) color s5;
          s7 = setPixel (xc + y, yc - x) color s6
      in setPixel (xc - y, yc - x) color s7)"

definition drawCircle :: "ImageDrawer \<Rightarrow> Point \<Rightarrow> rat \<Rightarrow> Color \<Rightarrow> outcome" where
  "drawCircle d center radius color =
     flush (octant_loop (circle_points center color) 0 radius (3 - 2 * radius) d)"

definition disc_spans :: "Point \<Rightarrow> Color \<Rightarrow> rat \<Rightarrow> rat \<Rightarrow> ImageDrawer \<Rightarrow> ImageDrawer" where
  "disc_spans center color x y s =
     (let (xc, yc) = center;
          s1 = for_up (xc - x) (xc + x)
                 (\<lambda>i t. setPixel (i, yc - y) color (setPixel (i, yc + y) color t)) s
      in for_up (xc - y) (xc + y)
           (\<lambda>i t. setPixel (i, yc - x) color (setPixel (i, yc + x) color t)) s1)"

definition drawFilledCircle :: "ImageDrawer \<Rightarrow> Point \<Rightarrow> rat \<Rightarrow> Color \<Rightarrow> outcome" where
  "drawFilledCircle d center radius color =
     flush (octant_loop (disc_spans center color) 0 radius (3 - 2 * radius) d)"

subsection \<open>Lines\<close>

text \<open>
  What one iteration of the loop in \<^verbatim>\<open>drawLine\<close> draws at \<^verbatim>\<open>[x0, y0]\<close>: a staged
  pixel, or for a thick line a filled circle between \<^verbatim>\<open>flushDisablers++\<close> and
  \<^verbatim>\<open>flushDisablers--\<close> (which a throw inside skips).
\<close>

definition plot :: "int \<times> int \<Rightarrow> Color \<Rightarrow> ImageDrawer \<Rightarrow> outcome" where
  "plot p color d =
     (if lineThickness d > 1 then
        (let d1 = d\<lparr>flushDisablers := flushDisablers d + 1\<rparr>;
             r = drawFilledCircle d1 (rat_of_int (fst p), rat_of_int (snd p))
                   (lineThickness d / 2) color
         in if fst r = Returned
            then (Returned, (snd r)\<lparr>flushDisablers := flushDisablers (snd r) - 1\<rparr>)
            else r)
      else (Returned, setPixel (rat_of_int (fst p), rat_of_int (snd p)) color d))"

text \<open>The update of \<^verbatim>\<open>err\<close>, \<^verbatim>\<open>x0\<close> and \<^verbatim>\<open>y0\<close> at the end of an iteration.\<close>

definition line_next :: "int \<Rightarrow> int \<Rightarrow> int \<Rightarrow> int \<Rightarrow> int \<times> int \<times> int \<Rightarrow> int \<times> int \<times> int" where
  "line_next dx dy sx sy st =
     (let (x0, y0, err) = st;
          e2 = 2 * err;
          (err1, x0') = (if e2 > - dy then (err - dy, x0 + sx) else (err, x0));
          (err2, y0') = (if e2 < dx then (err1 + dx, y0 + sy) else (err1, y0))
      in (x0', y0', err2))"

text \<open>The \<^verbatim>\<open>while (true)\<close> loop: it leaves by \<^verbatim>\<open>break\<close> at the end point, or by a
  throw.\<close>

partial_function (option) line_loop ::
  "int \<times> int \<Rightarrow> int \<times> int \<Rightarrow> int \<times> int \<Rightarrow> Color \<Rightarrow> int \<times> int \<times> int \<Rightarrow> ImageDrawer \<Rightarrow> outcome option"
where
  "line_loop end delta sgns color st d =
     (let r = plot (fst st, fst (snd st)) color d
      in if fst r \<noteq> Returned then Some r
         else if fst st = fst end \<and> fst (snd st) = snd end then Some r
         else line_loop end delta sgns color
                (line_next (fst delta) (snd delta) (fst sgns) (snd sgns) st) (snd r))"

declare line_loop.simps [code]

definition drawLine :: "ImageDrawer \<Rightarrow> Point \<Rightarrow> Point \<Rightarrow> Color \<Rightarrow> outcome option" where
  "drawLine d start end color =
     (let x0 = round_rat (fst start); y0 = round_rat (snd start);
          x1 = round_rat (fst end); y1 = round_rat (snd end);
          dx = \<bar>x1 - x0\<bar>; dy = \<bar>y1 - y0\<bar>;
          sx = (if x0 < x1 then 1 else - 1);
          sy = (if y0 < y1 then 1 else - 1);
          err = dx - dy
      in case line_loop (x1, y1) (dx, dy) (sx, sy) color (x0, y0, err) d of
           None \<Rightarrow> None
         | Some r \<Rightarrow> if fst r = Returned then Some (flush (snd r)) else Some r)"

subsection \<open>Triangles\<close>

text \<open>
  The inner loop \<^verbatim>\<open>for (let x = Math.round(xStart); x <= Math.round(xEnd); x++)\<close>. The
  bounds come from divisions, so they may be infinite or \<open>NaN\<close>: a comparison with
  \<open>NaN\<close> is false (no iteration), and a loop from \<^verbatim>\<open>-Infinity\<close>, or to
  \<^verbatim>\<open>Infinity\<close>, never ends.
\<close>

fun scan_row :: "number \<Rightarrow> number \<Rightarrow> rat \<Rightarrow> Color \<Rightarrow> ImageDrawer \<Rightarrow> ImageDrawer option" where
  "scan_row (Fin lo) (Fin hi) y color d =
     Some (for_up (rat_of_int (round_rat lo)) (rat_of_int (round_rat hi))
             (\<lambda>x. setPixel (x, y) color) d)"
| "scan_row NaN _ y color d = Some d"
| "scan_row _ NaN y color d = Some d"
| "scan_row NInf _ y color d = None"
| "scan_row (Fin lo) PInf y color d = None"
| "scan_row (Fin lo) NInf y color d = Some d"
| "scan_row PInf PInf y color d = None"
| "scan_row PInf _ y color d = Some d"

text \<open>\<^verbatim>\<open>for (let y = ya; y < yb; y++)\<close>, with \<^verbatim>\<open>xStart\<close> and \<^verbatim>\<open>xEnd\<close> carried along.\<close>

function tri_loop ::
  "number \<Rightarrow> number \<Rightarrow> Color \<Rightarrow> rat \<Rightarrow> rat \<Rightarrow> number \<times> number \<Rightarrow> ImageDrawer
     \<Rightarrow> ((number \<times> number) \<times> ImageDrawer) option"
where
  "tri_loop dx1 dx2 color y yb xs d =
     (if y < yb then
        (case scan_row (fst xs) (snd xs) y color d of
           None \<Rightarrow> None
         | Some d' \<Rightarrow> tri_loop dx1 dx2 color (y + 1) yb
                       (js_add (fst xs) dx1, js_add (snd xs) dx2) d')
      else Some (xs, d))"
  by pat_completeness auto
termination
proof (relation "measure (\<lambda>(dx1, dx2, color, y, yb, xs, d). nat \<lceil>yb - y\<rceil>)")
  show "wf (measure (\<lambda>(dx1, dx2, color, y, yb, xs, d). nat \<lceil>yb - y :: rat\<rceil>))"
    by simp
next
  fix dx1 dx2 :: number and color :: Color and y yb :: rat and xs :: "number \<times> number"
    and d x2 :: ImageDrawer
  assume lt: "y < yb"
  have "\<lceil>yb - (y + 1)\<rceil> = \<lceil>yb - y\<rceil> - 1"
    by (simp add: algebra_simps) linarith
  moreover from lt have "0 < \<lceil>yb - y\<rceil>"
    by simp
  ultimately show "((dx1, dx2, color, y + 1, yb, (js_add (fst xs) dx1, js_add (snd xs) dx2), x2),
      (dx1, dx2, color, y, yb, xs, d))
      \<in> measure (\<lambda>(dx1, dx2, color, y, yb, xs, d). nat \<lceil>yb - y\<rceil>)"
    by simp
qed

declare tri_loop.simps [simp del]

type_synonym Triangle = "Point \<times> Point \<times> Point"

definition drawTriangle :: "ImageDrawer \<Rightarrow> Triangle \<Rightarrow> Color \<Rightarrow> outcome option" where
  "drawTriangle d triangle color =
     (let ((x0, y0), (x1, y1), (x2, y2)) = triangle;
          dx1 = js_div (Fin (x1 - x0)) (Fin (y1 - y0));
          dx2 = js_div (Fin (x2 - x0)) (Fin (y2 - y0))
      in case tri_loop dx1 dx2 color y0 y1 (Fin x0, Fin x0) d of
           None \<Rightarrow> None
         | Some (xs, d1) \<Rightarrow>
             (let dx1' = js_div (Fin (x2 - x1)) (Fin (y2 - y1))
              in case tri_loop dx1' dx2 color y1 y2 (fst xs, Fin x1) d1 of
                   None \<Rightarrow> None
                 | Some (xs', d2) \<Rightarrow> Some (flush d2)))"

subsection \<open>Paths\<close>

text \<open>\<^verbatim>\<open>for (const point of points.slice(1))\<close>, a throw of \<^verbatim>\<open>drawLine\<close> leaving
  the loop.\<close>

fun path_loop :: "Point \<Rightarrow> Point list \<Rightarrow> Color \<Rightarrow> ImageDrawer \<Rightarrow> outcome option" where
  "path_loop lastPoint [] color d = Some (Returned, d)"
| "path_loop lastPoint (point # rest) color d =
     (case drawLine d lastPoint point color of
        None \<Rightarrow> None
      | Some r \<Rightarrow> if fst r = Returned then path_loop point rest color (snd r) else Some r)"

definition drawPath :: "ImageDrawer \<Rightarrow> Point list \<Rightarrow> Color \<Rightarrow> outcome option" where
  "drawPath d points color =
     (if length points < 2 then Some (Thrown InvalidPoints, d)
      else case path_loop (hd points) (tl points) color
                  (d\<lparr>flushDisablers := flushDisablers d + 1\<rparr>) of
             None \<Rightarrow> None
           | Some r \<Rightarrow>
               if fst r = Returned
               then Some (flush ((snd r)\<lparr>flushDisablers := flushDisablers (snd r) - 1\<rparr>))
               else Some r)"

subsection \<open>Curves\<close>

fun lerp_pairs :: "rat \<Rightarrow> Point list \<Rightarrow> Point list" where
  "lerp_pairs t ((x1, y1) # (x2, y2) # ps) =
     (x1 + (x2 - x1) * t, y1 + (y2 - y1) * t) # lerp_pairs t ((x2, y2) # ps)"
| "lerp_pairs t ps = []"

text \<open>\<^verbatim>\<open>lerpPoints\<close>; of an empty array it returns \<^verbatim>\<open>points[0]\<close>, that is
  \<^verbatim>\<open>undefined\<close> (\<open>None\<close>).\<close>

function lerpPoints :: "Point list \<Rightarrow> rat \<Rightarrow> Point option" where
  "lerpPoints points t =
     (if length points > 1 then lerpPoints (lerp_pairs t points) t
      else case points of [] \<Rightarrow> None | p # ps \<Rightarrow> Some p)"
  by pat_completeness auto
termination
proof (relation "measure (\<lambda>(points, t). length points)")
  show "wf (measure (\<lambda>(points :: Point list, t :: rat). length points))"
    by simp
next
  fix points :: "Point list" and t :: rat
  assume "1 < length points"
  moreover have "length (lerp_pairs t points) = length points - 1"
    by (induction t points rule: lerp_pairs.induct) auto
  ultimately show "((lerp_pairs t points, t), (points, t)) \<in> measure (\<lambda>(points, t). length points)"
    by simp
qed

declare lerpPoints.simps [simp del]

text \<open>
  \<^verbatim>\<open>for (let t = step; t <= 1; t += step)\<close> with a finite \<open>step\<close>. With
  \<open>step \<le> 0\<close> the loop only leaves by a throw. \<^verbatim>\<open>drawLine\<close> of an
  \<^verbatim>\<open>undefined\<close> point would throw a \<^verbatim>\<open>TypeError\<close>.
\<close>

partial_function (option) bezier_loop ::
  "Point list \<Rightarrow> Color \<Rightarrow> rat \<Rightarrow> rat \<Rightarrow> Point \<Rightarrow> ImageDrawer \<Rightarrow> outcome option"
where
  "bezier_loop points color step t lastPoint d =
     (if t \<le> 1 then
        (case lerpPoints points t of
           None \<Rightarrow> Some (Thrown TypeError, d)
         | Some point \<Rightarrow>
             (case drawLine d lastPoint point color of
                None \<Rightarrow> None
              | Some r \<Rightarrow>
                  if fst r = Returned
                  then bezier_loop points color step (t + step) point (snd r)
                  else Some r))
      else Some (Returned, d))"

declare bezier_loop.simps [code]

text \<open>
  \<^verbatim>\<open>points.reduce\<close> without an initial value, on a non-empty array. The default step
  \<^verbatim>\<open>1 / Math.abs(Math.abs(x1 - x0) - Math.abs(y1 - y0))\<close> is \<^verbatim>\<open>Infinity\<close> when the
  bounding box is a square: then \<^verbatim>\<open>t <= 1\<close> is false at once, as it is for a
  \<open>NaN\<close>. A step given by the caller is a finite number, and the default is never
  negative, so the case of \<^verbatim>\<open>-Infinity\<close> (a loop that never ends) is there for
  completeness only.
\<close>

definition default_step :: "Point list \<Rightarrow> number" where
  "default_step points =
     (let (x0, y0) = foldl (\<lambda>a b. (min (fst a) (fst b), min (snd a) (snd b))) (hd points) (tl points);
          (x1, y1) = foldl (\<lambda>a b. (max (fst a) (fst b), max (snd a) (snd b))) (hd points) (tl points)
      in js_div (Fin 1) (js_abs (js_sub (js_abs (Fin (x1 - x0))) (js_abs (Fin (y1 - y0))))))"

definition drawBezier :: "ImageDrawer \<Rightarrow> Point list \<Rightarrow> Color \<Rightarrow> rat option \<Rightarrow> outcome option" where
  "drawBezier d points color step_arg =
     (if length points < 2 then Some (Thrown InvalidPoints, d)
      else let lastPoint = hd points;
               step = (case step_arg of None \<Rightarrow> default_step points | Some s \<Rightarrow> Fin s);
               d1 = d\<lparr>flushDisablers := flushDisablers d + 1\<rparr>;
               looped = (case step of
                           Fin s \<Rightarrow> bezier_loop points color s s lastPoint d1
                         | PInf \<Rightarrow> Some (Returned, d1)
                         | NaN \<Rightarrow> Some (Returned, d1)
                         | NInf \<Rightarrow> None)
           in case looped of
                None \<Rightarrow> None
              | Some r \<Rightarrow>
                  if fst r = Returned
                  then Some (flush ((snd r)\<lparr>flushDisablers := flushDisablers (snd r) - 1\<rparr>))
                  else Some r)"

subsection \<open>Filling the whole image\<close>

text \<open>\<^verbatim>\<open>buffer.set(normalizedColor, i)\<close> stores four converted values from \<open>i\<close> on,
  and throws a \<^verbatim>\<open>RangeError\<close> when they do not fit.\<close>

function fill_loop :: "FullColorArray \<Rightarrow> nat \<Rightarrow> u8 list \<Rightarrow> exit \<times> u8 list" where
  "fill_loop c i buf =
     (if i < length buf then
        (if length buf < i + 4 then (Thrown RangeError, buf)
         else case c of (c0, c1, c2, c3) \<Rightarrow>
           fill_loop c (i + 4)
             (buf[i := ToUint8Clamp c0, i + 1 := ToUint8Clamp c1,
                  i + 2 := ToUint8Clamp c2, i + 3 := ToUint8Clamp c3]))
      else (Returned, buf))"
  by pat_completeness auto
termination
  by (relation "measure (\<lambda>(c, i, buf). length buf - i)") auto

declare fill_loop.simps [simp del]

definition fill :: "ImageDrawer \<Rightarrow> Color \<Rightarrow> outcome" where
  "fill d color =
     (let d1 = d\<lparr>temporaryBuffer := []\<rparr>
      in case toColor color of
           Inl e \<Rightarrow> (Thrown e, d1)
         | Inr normalizedColor \<Rightarrow>
             (case fill_loop normalizedColor 0 (buffer (image d1)) of
                (ex, buf) \<Rightarrow> (ex, d1\<lparr>image := (image d1)\<lparr>buffer := buf\<rparr>\<rparr>)))"

subsection \<open>The public drawing operations\<close>

datatype draw_op =
    DrawLine Point Point Color
  | DrawFilledRectangle Point Point Color
  | DrawRectangle Point Point Color
  | DrawCircle Point rat Color
  | DrawFilledCircle Point rat Color
  | DrawTriangle Triangle Color
  | DrawPath "Point list" Color
  | DrawBezier "Point list" Color "rat option"
  | Fill Color

fun run :: "draw_op \<Rightarrow> ImageDrawer \<Rightarrow> outcome option" where
  "run (DrawLine a b c) d = drawLine d a b c"
| "run (DrawFilledRectangle a b c) d = Some (drawFilledRectangle d a b c)"
| "run (DrawRectangle a b c) d = Some (drawRectangle d a b c)"
| "run (DrawCircle p r c) d = Some (drawCircle d p r c)"
| "run (DrawFilledCircle p r c) d = Some (drawFilledCircle d p r c)"
| "run (DrawTriangle t c) d = drawTriangle d t c"
| "run (DrawPath ps c) d = drawPath d ps c"
| "run (DrawBezier ps c s) d = drawBezier d ps c s"
| "run (Fill c) d = Some (fill d c)"

section \<open>Notions used in the properties\<close>

text \<open>
  What a shape algorithm does to the drawer before it flushes is to stage one color at a
  list of pixel indices, in order: \<open>staged c ks d\<close> is the drawer \<open>d\<close> after
  \<^verbatim>\<open>temporaryBuffer.set(k, c)\<close> for each \<open>k\<close> of \<open>ks\<close>. A function on drawers is a
  \<open>stager\<close> for an image and a color when, on every drawer of that image, it is such a
  sequence of writes, the same indices whatever is pending.
\<close>

definition stage_all :: "int list \<Rightarrow> Color \<Rightarrow> (int \<times> Color) list \<Rightarrow> (int \<times> Color) list" where
  "stage_all ks c tb = foldl (\<lambda>m k. AList.update k c m) tb ks"

definition staged :: "Color \<Rightarrow> int list \<Rightarrow> ImageDrawer \<Rightarrow> ImageDrawer" where
  "staged c ks d = d\<lparr>temporaryBuffer := stage_all ks c (temporaryBuffer d)\<rparr>"

definition stager :: "Image \<Rightarrow> Color \<Rightarrow> (ImageDrawer \<Rightarrow> ImageDrawer) \<Rightarrow> bool" where
  "stager img c f \<longleftrightarrow> (\<exists>ks. \<forall>d. image d = img \<longrightarrow> f d = staged c ks d)"

text \<open>The color a drawing operation is called with.\<close>

fun color_of :: "draw_op \<Rightarrow> Color" where
  "color_of (DrawLine a b c) = c"
| "color_of (DrawFilledRectangle a b c) = c"
| "color_of (DrawRectangle a b c) = c"
| "color_of (DrawCircle p r c) = c"
| "color_of (DrawFilledCircle p r c) = c"
| "color_of (DrawTriangle t c) = c"
| "color_of (DrawPath ps c) = c"
| "color_of (DrawBezier ps c s) = c"
| "color_of (Fill c) = c"

text \<open>A color as it reads back from the byte array after it was stored there.\<close>

definition stored :: "FullColorArray \<Rightarrow> FullColorArray" where
  "stored col = (case col of (r, g, b, a) \<Rightarrow>
     (Fin (rat_of_nat (unat (ToUint8Clamp r))), Fin (rat_of_nat (unat (ToUint8Clamp g))),
      Fin (rat_of_nat (unat (ToUint8Clamp b))), Fin (rat_of_nat (unat (ToUint8Clamp a)))))"

section \<open>Properties of the color model\<close>

lemma toColor_error: "toColor c = Inl e \<Longrightarrow> e = InvalidColor"
  by (auto simp: toColor_def Let_def split: Color.splits list.splits option.splits if_splits)

lemma toColor_ColorArray4: "toColor (ColorArray [c0, c1, c2, c3]) = Inr (c0, c1, c2, c3)"
  by (simp add: toColor_def)

text \<open>
  C1. The claim expects the three primary hues at lightness 50 to normalize to the pure
  primaries \<open>[255,0,0,255]\<close>, \<open>[0,255,0,255]\<close>, \<open>[0,0,255,255]\<close>. The source computes
  the chroma as \<^verbatim>\<open>l / 100 * s / 100\<close> and the offset as \<^verbatim>\<open>l / 100 - c\<close>, so that each
  of them comes out at half intensity: the channel is \<open>round (0.5 * 255) = 128\<close>.
\<close>

theorem toColor_hsl_primaries:
  "toColor (ColorString ''hsl(0, 100, 50)'') = Inr (Fin 128, Fin 0, Fin 0, Fin 255) \<and>
   toColor (ColorString ''hsl(120, 100, 50)'') = Inr (Fin 0, Fin 128, Fin 0, Fin 255) \<and>
   toColor (ColorString ''hsl(240, 100, 50)'') = Inr (Fin 0, Fin 0, Fin 128, Fin 255)"
  by code_simp

text \<open>
  C6. The claim expects a hex string with a pair that is not made of base-16 digits to
  fail with \<open>InvalidColor\<close>. The source checks the length only: \<^verbatim>\<open>parseInt\<close> gives
  \<open>NaN\<close> for a pair that does not start with a digit, and the value of the leading digit
  for a pair whose second character is not one; neither throws.
\<close>

theorem toColor_hex_not_validated:
  "toColor (ColorString ''#GGGGGG'') = Inr (NaN, NaN, NaN, Fin 255) \<and>
   toColor (ColorString ''#1G2x3-'') = Inr (Fin 1, Fin 2, Fin 3, Fin 255)"
  by code_simp

section \<open>Properties of the pixel buffer\<close>



lemma round_rat_of_int: "round_rat (of_int n) = n"
  unfolding round_rat_def by linarith



lemma buf_read_nat:
  "n < length buf \<Longrightarrow> buf_read buf (rat_of_nat n) = Fin (rat_of_nat (unat (buf ! n)))"
  by (simp add: buf_read_def)

lemma byte_bounds:
  fixes w :: u8
  shows "0 \<le> rat_of_nat (unat w)" and "rat_of_nat (unat w) \<le> 255"
proof -
  show "0 \<le> rat_of_nat (unat w)"
    by (rule of_nat_0_le_iff)
  have "unat w < 256"
    using unsigned_less [of w, where 'a = nat] by simp
  then have "unat w \<le> 255" by simp
  then have "rat_of_nat (unat w) \<le> rat_of_nat 255"
    by (simp only: of_nat_le_iff)
  then show "rat_of_nat (unat w) \<le> 255"
    by (simp only: of_nat_numeral)
qed

lemma buf_read_byte:
  assumes "buf_read buf i = Fin v"
  shows "0 \<le> v \<and> v \<le> 255 \<and> (\<exists>n. v = rat_of_nat n)"
proof -
  from assms obtain w :: u8 where v: "v = rat_of_nat (unat w)"
    by (auto simp: buf_read_def simp del: of_nat_unat split: if_splits)
  show ?thesis
    unfolding v using byte_bounds [of w] by blast
qed

lemma pixel_index_bound:
  fixes x y w h :: nat
  assumes "x < w" "y < h"
  shows "(y * w + x) * 4 + 3 < w * h * 4"
proof -
  have "y * w + x < y * w + w" using assms by simp
  also have "\<dots> = (y + 1) * w" by simp
  also have "\<dots> \<le> h * w" using assms by (intro mult_right_mono) simp_all
  finally have "y * w + x < w * h" by (simp add: mult.commute)
  then show ?thesis by simp
qed

lemma round_rat_of_nat: "round_rat (rat_of_nat n) = int n"
  unfolding round_rat_def by linarith

lemma Image_get_nat:
  assumes "length (buffer img) = width img * height img * 4" "x < width img" "y < height img"
    and i_def: "i = (y * width img + x) * 4"
  shows "Image_get img (rat_of_nat x, rat_of_nat y) =
    (Fin (rat_of_nat (unat (buffer img ! i))),
     Fin (rat_of_nat (unat (buffer img ! (i + 1)))),
     Fin (rat_of_nat (unat (buffer img ! (i + 2)))),
     Fin (rat_of_nat (unat (buffer img ! (i + 3)))))"
proof -
  have idx: "(rat_of_nat y * rat_of_nat (width img) + rat_of_nat x) * 4 = rat_of_nat i"
    by (simp add: i_def)
  have lt: "i + 3 < length (buffer img)"
    using pixel_index_bound [OF assms(2,3)] assms(1) by (simp add: i_def)
  have rd: "buf_read (buffer img) (rat_of_nat i + rat_of_nat k)
      = Fin (rat_of_nat (unat (buffer img ! (i + k))))" if "k \<le> 3" for k
  proof -
    have "buf_read (buffer img) (rat_of_nat (i + k)) = Fin (rat_of_nat (unat (buffer img ! (i + k))))"
      using lt that by (intro buf_read_nat) simp
    then show ?thesis by (simp only: of_nat_add)
  qed
  show ?thesis
    unfolding Image_get_def Let_def prod.case idx
    using rd [of 0] rd [of 1] rd [of 2] rd [of 3] by (simp del: of_nat_unat)
qed

lemma Image_set_nat:
  assumes "toColor color = Inr (c0, c1, c2, c3)" "x < width img" "y < height img"
    and i_def: "i = (y * width img + x) * 4"
  shows "Image_set img (rat_of_nat x, rat_of_nat y) color =
    Inr (img\<lparr>buffer := (buffer img)
       [i := ToUint8Clamp c0, i + 1 := ToUint8Clamp c1,
        i + 2 := ToUint8Clamp c2, i + 3 := ToUint8Clamp c3]\<rparr>)"
proof -
  have "nat ((int y * int (width img) + int x) * 4) = i"
    by (simp add: nat_eq_iff i_def)
  then show ?thesis
    using assms by (simp add: Image_set_def round_rat_of_nat Let_def)
qed




text \<open>
  C2, as the claim states it, fails for \<^verbatim>\<open>Image.set\<close>: the coordinate \<open>-0.4\<close> is outside
  \<open>[0, W)\<close>, but \<^verbatim>\<open>set\<close> rounds before it checks, and the pixel \<open>(0, 0)\<close> is written.
\<close>

theorem Image_set_rounds_into_range:
  "- 2 / 5 < (0 :: rat) \<and>
   Image_set (new_Image 1 1) (- 2 / 5, 0) (ColorString ''#FFFFFF'')
     = Inr \<lparr>width = 1, height = 1, buffer = [255, 255, 255, 255]\<rparr> \<and>
   buffer (new_Image 1 1) = [0, 0, 0, 0]"
  by code_simp

text \<open>
  C2, amended. \<^verbatim>\<open>Image.set\<close> of a point whose rounded coordinates are outside
  \<open>[0, W) \<times> [0, H)\<close> leaves the image as it is (or throws for an invalid color, before
  any store); \<^verbatim>\<open>setPixel\<close> of a point with a coordinate outside \<open>[0, W) \<times> [0, H)\<close>,
  before any rounding, stages nothing and leaves the whole drawer as it is.
\<close>

theorem out_of_range_no_mutation:
  "(round_rat x < 0 \<or> round_rat x \<ge> int (width img) \<or> round_rat y < 0 \<or> round_rat y \<ge> int (height img)
      \<longrightarrow> Image_set img (x, y) color = (case toColor color of Inl e \<Rightarrow> Inl e | Inr c \<Rightarrow> Inr img)) \<and>
   (x < 0 \<or> x \<ge> rat_of_nat (width (image d)) \<or> y < 0 \<or> y \<ge> rat_of_nat (height (image d))
      \<longrightarrow> setPixel (x, y) color d = d)"
  by (auto simp: Image_set_def setPixel_def split: sum.splits)

theorem out_of_range_no_mutation_witness:
  "Image_set (new_Image 2 2) (5 / 2, 0) (ColorString ''#FFFFFF'') = Inr (new_Image 2 2) \<and>
   setPixel (- 2 / 5, 0) (ColorString ''#FFFFFF'') (new_ImageDrawer (new_Image 2 2))
     = new_ImageDrawer (new_Image 2 2)"
proof -
  have r: "round_rat (5 / 2) = 3" "round_rat 0 = 0"
    by code_simp+
  have c: "toColor (ColorString ''#FFFFFF'') = Inr (Fin 255, Fin 255, Fin 255, Fin 255)"
    by code_simp
  have "Image_set (new_Image 2 2) (5 / 2, 0) (ColorString ''#FFFFFF'') = Inr (new_Image 2 2)"
    using out_of_range_no_mutation [of "5 / 2" "new_Image 2 2" 0 "ColorString ''#FFFFFF''"]
    by (simp add: r c new_Image_def)
  moreover have "setPixel (- 2 / 5, 0) (ColorString ''#FFFFFF'') (new_ImageDrawer (new_Image 2 2))
     = new_ImageDrawer (new_Image 2 2)"
    using out_of_range_no_mutation [of "- 2 / 5" _ 0 _ "new_ImageDrawer (new_Image 2 2)"]
    by simp
  ultimately show ?thesis by simp
qed



section \<open>Staging: what the loops do to the drawer\<close>

lemma stage_all_append: "stage_all (ks1 @ ks2) c tb = stage_all ks2 c (stage_all ks1 c tb)"
  by (simp add: stage_all_def)

lemma staged_fields [simp]:
  "image (staged c ks d) = image d" "blending (staged c ks d) = blending d"
  "lineThickness (staged c ks d) = lineThickness d" "flushDisablers (staged c ks d) = flushDisablers d"
  "temporaryBuffer (staged c ks d) = stage_all ks c (temporaryBuffer d)"
  by (simp_all add: staged_def)

lemma staged_staged: "staged c ks2 (staged c ks1 d) = staged c (ks1 @ ks2) d"
  by (simp add: staged_def stage_all_append)

lemma staged_Nil: "staged c [] d = d"
  by (simp add: staged_def stage_all_def)

lemma staged_flushDisablers_update:
  "staged c ks (d\<lparr>flushDisablers := n\<rparr>) = (staged c ks d)\<lparr>flushDisablers := n\<rparr>"
  by (simp add: staged_def)

lemma map_of_stage_all:
  "map_of (stage_all ks c tb) k = (if k \<in> set ks then Some c else map_of tb k)"
  unfolding stage_all_def
  by (induction ks arbitrary: tb) (auto simp: AList.update_conv')

lemma stage_all_absorb:
  assumes "\<forall>k \<in> set ks. map_of tb k = Some c"
  shows "stage_all ks c tb = tb"
  using assms unfolding stage_all_def
  by (induction ks arbitrary: tb) (simp_all add: AList.update_triv)

lemma stage_all_idem:
  assumes "set ks2 \<subseteq> set ks1"
  shows "stage_all ks2 c (stage_all ks1 c tb) = stage_all ks1 c tb"
  using assms by (intro stage_all_absorb) (auto simp: map_of_stage_all)

lemma distinct_stage_all:
  "distinct (map fst tb) \<Longrightarrow> distinct (map fst (stage_all ks c tb))"
  unfolding stage_all_def
  by (induction ks arbitrary: tb) (simp_all add: AList.distinct_update)

lemma values_stage_all:
  "snd ` set (stage_all ks c tb) \<subseteq> insert c (snd ` set tb)"
  unfolding stage_all_def
proof (induction ks arbitrary: tb)
  case Nil
  then show ?case by auto
next
  case (Cons k ks)
  have "snd ` set (AList.update k c tb) \<subseteq> insert c (snd ` set tb)"
    by (induction tb) auto
  with Cons [of "AList.update k c tb"] show ?case by auto
qed

lemma stager_id: "stager img c (\<lambda>d. d)"
  unfolding stager_def by (intro exI [of _ "[]"]) (simp add: staged_Nil)

lemma stager_comp:
  assumes "stager img c f" "stager img c g"
  shows "stager img c (\<lambda>d. g (f d))"
proof -
  from assms obtain ks1 ks2 where
    f: "\<And>d. image d = img \<Longrightarrow> f d = staged c ks1 d" and
    g: "\<And>d. image d = img \<Longrightarrow> g d = staged c ks2 d"
    unfolding stager_def by blast
  have "g (f d) = staged c (ks1 @ ks2) d" if "image d = img" for d
    using that by (simp add: f g staged_staged)
  then show ?thesis unfolding stager_def by blast
qed

lemma stager_setPixel: "stager img c (setPixel p c)"
proof (cases "fst p < 0 \<or> fst p \<ge> rat_of_nat (width img) \<or> snd p < 0 \<or> snd p \<ge> rat_of_nat (height img)")
  case True
  then have "setPixel p c d = staged c [] d" if "image d = img" for d
    using that by (simp add: setPixel_def staged_Nil)
  then show ?thesis unfolding stager_def by blast
next
  case False
  then have "setPixel p c d = staged c [round_rat (snd p) * int (width img) + round_rat (fst p)] d"
    if "image d = img" for d
    using that by (simp add: setPixel_def staged_def stage_all_def Let_def)
  then show ?thesis unfolding stager_def by blast
qed

lemma stager_for_up:
  fixes s :: ImageDrawer
  assumes "\<And>i. stager img c (body i)"
  shows "stager img c (for_up lo hi body)"
  using assms
proof (induction lo hi body s rule: for_up.induct)
  case (1 i hi body s)
  show ?case
  proof (cases "i \<le> hi")
    case True
    then have "for_up i hi body = (\<lambda>d. for_up (i + 1) hi body (body i d))"
      by (intro ext) (simp add: for_up.simps [of i])
    moreover have "stager img c (\<lambda>d. for_up (i + 1) hi body (body i d))"
      by (rule stager_comp [OF "1.prems" "1.IH" [OF True "1.prems"]])
    ultimately show ?thesis by simp
  next
    case False
    then have "for_up i hi body = (\<lambda>d. d)"
      by (intro ext) (simp add: for_up.simps [of i])
    with stager_id show ?thesis by simp
  qed
qed

lemma stager_octant:
  fixes s :: ImageDrawer
  assumes "\<And>x y. stager img c (body x y)"
  shows "stager img c (octant_loop body x y dd)"
  using assms
proof (induction body x y dd s rule: octant_loop.induct)
  case (1 body x y dd s)
  show ?case
  proof (cases "x \<le> y")
    case True
    show ?thesis
    proof (cases "dd > 0")
      case pos: True
      with True have "octant_loop body x y dd =
          (\<lambda>d. octant_loop body (x + 1) (y - 1) (dd + 4 * (x - (y - 1)) + 10) (body x y d))"
        by (intro ext) (simp add: octant_loop.simps [of body x])
      moreover have "stager img c
          (\<lambda>d. octant_loop body (x + 1) (y - 1) (dd + 4 * (x - (y - 1)) + 10) (body x y d))"
        by (rule stager_comp [OF "1.prems" "1.IH"(1) [OF True pos "1.prems"]])
      ultimately show ?thesis by simp
    next
      case neg: False
      with True have "octant_loop body x y dd =
          (\<lambda>d. octant_loop body (x + 1) y (dd + 4 * x + 6) (body x y d))"
        by (intro ext) (simp add: octant_loop.simps [of body x])
      moreover have "stager img c (\<lambda>d. octant_loop body (x + 1) y (dd + 4 * x + 6) (body x y d))"
        by (rule stager_comp [OF "1.prems" "1.IH"(2) [OF True neg "1.prems"]])
      ultimately show ?thesis by simp
    qed
  next
    case False
    then have "octant_loop body x y dd = (\<lambda>d. d)"
      by (intro ext) (simp add: octant_loop.simps [of body x])
    with stager_id show ?thesis by simp
  qed
qed

lemma stager_then_setPixel:
  "stager img c f \<Longrightarrow> stager img c (\<lambda>d. setPixel p c (f d))"
  by (rule stager_comp [OF _ stager_setPixel])

lemma stager_setPixel2: "stager img c (\<lambda>t. setPixel p c (setPixel q c t))"
  by (rule stager_comp [OF stager_setPixel stager_setPixel])

lemma stager_disc_spans: "stager img c (disc_spans center c x y)"
proof -
  obtain xc yc where center: "center = (xc, yc)" by (cases center)
  have 1: "stager img c (for_up (xc - x) (xc + x)
      (\<lambda>i t. setPixel (i, yc - y) c (setPixel (i, yc + y) c t)))"
    by (rule stager_for_up) (rule stager_setPixel2)
  have 2: "stager img c (for_up (xc - y) (xc + y)
      (\<lambda>i t. setPixel (i, yc - x) c (setPixel (i, yc + x) c t)))"
    by (rule stager_for_up) (rule stager_setPixel2)
  have eq: "disc_spans (xc, yc) c x y = (\<lambda>s. for_up (xc - y) (xc + y)
      (\<lambda>i t. setPixel (i, yc - x) c (setPixel (i, yc + x) c t))
        (for_up (xc - x) (xc + x) (\<lambda>i t. setPixel (i, yc - y) c (setPixel (i, yc + y) c t)) s))"
    unfolding disc_spans_def Let_def prod.case by (rule refl)
  show ?thesis
    unfolding center eq by (rule stager_comp [OF 1 2])
qed

lemma stager_circle_points: "stager img c (circle_points center c x y)"
proof -
  obtain xc yc where center: "center = (xc, yc)" by (cases center)
  have eq: "circle_points (xc, yc) c x y = (\<lambda>s.
     setPixel (xc - y, yc - x) c (setPixel (xc + y, yc - x) c (setPixel (xc - y, yc + x) c
       (setPixel (xc + y, yc + x) c (setPixel (xc - x, yc - y) c (setPixel (xc + x, yc - y) c
         (setPixel (xc - x, yc + y) c (setPixel (xc + x, yc + y) c s))))))))"
    unfolding circle_points_def Let_def prod.case by (rule refl)
  show ?thesis
    unfolding center eq
    by ((rule stager_then_setPixel)+, rule stager_id)
qed

lemma flush_disabled: "flushDisablers d \<noteq> 0 \<Longrightarrow> flush d = (Returned, d)"
  by (simp add: flush_def)

lemma plot_staged:
  "\<exists>ks. \<forall>d. image d = img \<and> lineThickness d = lt \<and> flushDisablers d \<noteq> - 1
      \<longrightarrow> plot p c d = (Returned, staged c ks d)"
proof (cases "lt > 1")
  case True
  have "stager img c (octant_loop (disc_spans (rat_of_int (fst p), rat_of_int (snd p)) c)
      0 (lt / 2) (3 - 2 * (lt / 2)))"
    by (rule stager_octant) (rule stager_disc_spans)
  then obtain ks where ks: "\<And>d. image d = img \<Longrightarrow>
      octant_loop (disc_spans (rat_of_int (fst p), rat_of_int (snd p)) c) 0 (lt / 2) (3 - 2 * (lt / 2)) d
        = staged c ks d"
    unfolding stager_def by blast
  have "plot p c d = (Returned, staged c ks d)"
    if d: "image d = img" "lineThickness d = lt" "flushDisablers d \<noteq> - 1" for d
  proof -
    define d1 where "d1 = d\<lparr>flushDisablers := flushDisablers d + 1\<rparr>"
    have "drawFilledCircle d1 (rat_of_int (fst p), rat_of_int (snd p)) (lt / 2) c = flush (staged c ks d1)"
      unfolding drawFilledCircle_def using ks [of d1] d by (simp add: d1_def)
    also have "\<dots> = (Returned, staged c ks d1)"
      using d by (intro flush_disabled) (simp add: d1_def)
    finally have "drawFilledCircle d1 (rat_of_int (fst p), rat_of_int (snd p)) (lt / 2) c
        = (Returned, staged c ks d1)" .
    moreover have "(staged c ks d1)\<lparr>flushDisablers := flushDisablers (staged c ks d1) - 1\<rparr> = staged c ks d"
      by (simp add: d1_def staged_def)
    ultimately show ?thesis
      using True d unfolding plot_def Let_def d1_def [symmetric] by simp
  qed
  then show ?thesis by blast
next
  case False
  from stager_setPixel [of img c "(rat_of_int (fst p), rat_of_int (snd p))"]
  obtain ks where ks: "\<And>d. image d = img \<Longrightarrow>
      setPixel (rat_of_int (fst p), rat_of_int (snd p)) c d = staged c ks d"
    unfolding stager_def by blast
  have "plot p c d = (Returned, staged c ks d)"
    if d: "image d = img" "lineThickness d = lt" for d
    using False d ks [of d] by (simp add: plot_def)
  then show ?thesis by blast
qed

lemma line_next_inv:
  fixes dx dy sx sy x y err rx ry x1 y1 :: int
  assumes inv: "0 \<le> rx" "rx \<le> dx" "0 \<le> ry" "ry \<le> dy"
      "x1 - x = sx * rx" "y1 - y = sy * ry" "err = dx - dy + rx * dy - ry * dx"
    and more: "0 < rx + ry"
  shows "\<exists>x' y' err' rx' ry'. line_next dx dy sx sy (x, y, err) = (x', y', err') \<and>
           0 \<le> rx' \<and> rx' \<le> dx \<and> 0 \<le> ry' \<and> ry' \<le> dy \<and>
           x1 - x' = sx * rx' \<and> y1 - y' = sy * ry' \<and> err' = dx - dy + rx' * dy - ry' * dx \<and>
           rx' + ry' < rx + ry"
proof -
  have dxy: "0 \<le> dx" "0 \<le> dy" using inv by simp_all
  have A: "1 \<le> rx" if "2 * err > - dy"
  proof (rule ccontr)
    assume "\<not> 1 \<le> rx"
    with inv more have rx: "rx = 0" and ry: "1 \<le> ry" by simp_all
    from ry dxy have "1 * dx \<le> ry * dx" by (intro mult_right_mono) simp_all
    with inv(7) rx have "err \<le> - dy" by simp
    with dxy that show False by simp
  qed
  have B: "1 \<le> ry" if "2 * err < dx"
  proof (rule ccontr)
    assume "\<not> 1 \<le> ry"
    with inv more have ry: "ry = 0" and rx: "1 \<le> rx" by simp_all
    from rx dxy have "1 * dy \<le> rx * dy" by (intro mult_right_mono) simp_all
    with inv(7) ry have "dx \<le> err" by simp
    with dxy that show False by simp
  qed
  have C: "2 * err > - dy \<or> 2 * err < dx"
  proof (rule ccontr)
    assume "\<not> (2 * err > - dy \<or> 2 * err < dx)"
    then have "dx + dy \<le> 0" by simp
    with dxy have "dx = 0" "dy = 0" by simp_all
    with inv more show False by simp
  qed
  show ?thesis
  proof (cases "2 * err > - dy")
    case xs: True
    show ?thesis
    proof (cases "2 * err < dx")
      case ys: True
      have "line_next dx dy sx sy (x, y, err) = (x + sx, y + sy, err - dy + dx)"
        using xs ys by (simp add: line_next_def)
      moreover have "x1 - (x + sx) = sx * (rx - 1)" "y1 - (y + sy) = sy * (ry - 1)"
        "err - dy + dx = dx - dy + (rx - 1) * dy - (ry - 1) * dx"
        using inv by (simp_all add: algebra_simps)
      ultimately show ?thesis
        using A [OF xs] B [OF ys] inv
        by (intro exI [of _ "x + sx"] exI [of _ "y + sy"] exI [of _ "err - dy + dx"]
            exI [of _ "rx - 1"] exI [of _ "ry - 1"]) simp
    next
      case ys: False
      have "line_next dx dy sx sy (x, y, err) = (x + sx, y, err - dy)"
        using xs ys by (simp add: line_next_def)
      moreover have "x1 - (x + sx) = sx * (rx - 1)"
        "err - dy = dx - dy + (rx - 1) * dy - ry * dx"
        using inv by (simp_all add: algebra_simps)
      ultimately show ?thesis
        using A [OF xs] inv
        by (intro exI [of _ "x + sx"] exI [of _ "y"] exI [of _ "err - dy"]
            exI [of _ "rx - 1"] exI [of _ "ry"]) simp
    qed
  next
    case xs: False
    with C have ys: "2 * err < dx" by simp
    have "line_next dx dy sx sy (x, y, err) = (x, y + sy, err + dx)"
      using xs ys by (simp add: line_next_def)
    moreover have "y1 - (y + sy) = sy * (ry - 1)"
      "err + dx = dx - dy + rx * dy - (ry - 1) * dx"
      using inv by (simp_all add: algebra_simps)
    ultimately show ?thesis
      using B [OF ys] inv
      by (intro exI [of _ "x"] exI [of _ "y + sy"] exI [of _ "err + dx"]
          exI [of _ "rx"] exI [of _ "ry - 1"]) simp
  qed
qed

lemma line_loop_step:
  assumes "plot (x, y) c d = (Returned, d')"
  shows "line_loop e dl sg c (x, y, err) d =
    (if x = fst e \<and> y = snd e then Some (Returned, d')
     else line_loop e dl sg c (line_next (fst dl) (snd dl) (fst sg) (snd sg) (x, y, err)) d')"
  by (subst line_loop.simps) (simp add: Let_def assms)

lemma line_loop_staged:
  fixes dx dy sx sy x y err rx ry x1 y1 :: int
  assumes sgn: "sx \<noteq> 0" "sy \<noteq> 0"
    and inv: "0 \<le> rx" "rx \<le> dx" "0 \<le> ry" "ry \<le> dy"
      "x1 - x = sx * rx" "y1 - y = sy * ry" "err = dx - dy + rx * dy - ry * dx"
  shows "\<exists>ks. \<forall>d. image d = img \<and> lineThickness d = lt \<and> flushDisablers d \<noteq> - 1 \<longrightarrow>
           line_loop (x1, y1) (dx, dy) (sx, sy) c (x, y, err) d = Some (Returned, staged c ks d) \<and>
           plot (x1, y1) c (staged c ks d) = (Returned, staged c ks d)"
  using inv
proof (induction "nat (rx + ry)" arbitrary: rx ry x y err rule: less_induct)
  case less
  note inv = less.prems
  from plot_staged [of img lt "(x, y)" c]
  obtain pk where pk: "\<And>d. image d = img \<Longrightarrow> lineThickness d = lt \<Longrightarrow> flushDisablers d \<noteq> - 1
      \<Longrightarrow> plot (x, y) c d = (Returned, staged c pk d)"
    by blast
  show ?case
  proof (cases "rx + ry = 0")
    case True
    with inv have "rx = 0" "ry = 0" by simp_all
    with inv have at_end: "x = x1" "y = y1" by simp_all
    have "line_loop (x1, y1) (dx, dy) (sx, sy) c (x, y, err) d = Some (Returned, staged c pk d) \<and>
          plot (x1, y1) c (staged c pk d) = (Returned, staged c pk d)"
      if d: "image d = img" "lineThickness d = lt" "flushDisablers d \<noteq> - 1" for d
    proof -
      have "line_loop (x1, y1) (dx, dy) (sx, sy) c (x, y, err) d = Some (Returned, staged c pk d)"
        unfolding line_loop_step [OF pk [OF d]] by (simp add: at_end)
      moreover have "plot (x, y) c (staged c pk d) = (Returned, staged c pk (staged c pk d))"
        using d by (intro pk) simp_all
      then have "plot (x1, y1) c (staged c pk d) = (Returned, staged c pk (staged c pk d))"
        unfolding at_end .
      moreover have "staged c pk (staged c pk d) = staged c pk d"
        by (simp add: staged_def stage_all_idem)
      ultimately show ?thesis by simp
    qed
    then show ?thesis by blast
  next
    case False
    with inv have pos: "0 < rx + ry" by simp
    from line_next_inv [OF inv pos]
    obtain x' y' err' rx' ry' where nxt: "line_next dx dy sx sy (x, y, err) = (x', y', err')"
      and inv': "0 \<le> rx'" "rx' \<le> dx" "0 \<le> ry'" "ry' \<le> dy"
        "x1 - x' = sx * rx'" "y1 - y' = sy * ry'" "err' = dx - dy + rx' * dy - ry' * dx"
      and dec: "rx' + ry' < rx + ry"
      by blast
    from dec inv' have "nat (rx' + ry') < nat (rx + ry)" by simp
    from less.hyps [OF this inv']
    obtain ks where ks: "\<And>d. image d = img \<Longrightarrow> lineThickness d = lt \<Longrightarrow> flushDisablers d \<noteq> - 1
      \<Longrightarrow> line_loop (x1, y1) (dx, dy) (sx, sy) c (x', y', err') d = Some (Returned, staged c ks d) \<and>
          plot (x1, y1) c (staged c ks d) = (Returned, staged c ks d)"
      by blast
    have not_end: "\<not> (x = x1 \<and> y = y1)"
    proof
      assume "x = x1 \<and> y = y1"
      with inv sgn have "rx = 0" "ry = 0" by simp_all
      with pos show False by simp
    qed
    have "line_loop (x1, y1) (dx, dy) (sx, sy) c (x, y, err) d = Some (Returned, staged c (pk @ ks) d) \<and>
          plot (x1, y1) c (staged c (pk @ ks) d) = (Returned, staged c (pk @ ks) d)"
      if d: "image d = img" "lineThickness d = lt" "flushDisablers d \<noteq> - 1" for d
    proof -
      have d': "image (staged c pk d) = img" "lineThickness (staged c pk d) = lt"
        "flushDisablers (staged c pk d) \<noteq> - 1"
        using d by simp_all
      have "line_loop (x1, y1) (dx, dy) (sx, sy) c (x, y, err) d
          = line_loop (x1, y1) (dx, dy) (sx, sy) c (x', y', err') (staged c pk d)"
        unfolding line_loop_step [OF pk [OF d]] using not_end by (auto simp: nxt)
      with ks [OF d'] show ?thesis
        by (simp add: staged_staged)
    qed
    then show ?thesis by blast
  qed
qed

lemma drawLine_staged:
  "\<exists>ks. \<forall>d. image d = img \<and> lineThickness d = lt \<and> flushDisablers d \<noteq> - 1 \<longrightarrow>
      drawLine d a b c = Some (flush (staged c ks d)) \<and>
      plot (round_rat (fst b), round_rat (snd b)) c (staged c ks d) = (Returned, staged c ks d)"
proof -
  define x0 y0 x1 y1 where "x0 = round_rat (fst a)" and "y0 = round_rat (snd a)"
    and "x1 = round_rat (fst b)" and "y1 = round_rat (snd b)"
  define sx sy :: int where "sx = (if x0 < x1 then 1 else - 1)" and "sy = (if y0 < y1 then 1 else - 1)"
  have "sx \<noteq> 0" "sy \<noteq> 0" "0 \<le> \<bar>x1 - x0\<bar>" "\<bar>x1 - x0\<bar> \<le> \<bar>x1 - x0\<bar>" "0 \<le> \<bar>y1 - y0\<bar>" "\<bar>y1 - y0\<bar> \<le> \<bar>y1 - y0\<bar>"
    "x1 - x0 = sx * \<bar>x1 - x0\<bar>" "y1 - y0 = sy * \<bar>y1 - y0\<bar>"
    "\<bar>x1 - x0\<bar> - \<bar>y1 - y0\<bar> = \<bar>x1 - x0\<bar> - \<bar>y1 - y0\<bar> + \<bar>x1 - x0\<bar> * \<bar>y1 - y0\<bar> - \<bar>y1 - y0\<bar> * \<bar>x1 - x0\<bar>"
    by (simp_all add: sx_def sy_def)
  from line_loop_staged [OF this, of img lt c]
  obtain ks where ks: "\<And>d. image d = img \<Longrightarrow> lineThickness d = lt \<Longrightarrow> flushDisablers d \<noteq> - 1
      \<Longrightarrow> line_loop (x1, y1) (\<bar>x1 - x0\<bar>, \<bar>y1 - y0\<bar>) (sx, sy) c (x0, y0, \<bar>x1 - x0\<bar> - \<bar>y1 - y0\<bar>) d
            = Some (Returned, staged c ks d) \<and>
          plot (x1, y1) c (staged c ks d) = (Returned, staged c ks d)"
    by blast
  have "drawLine d a b c = Some (flush (staged c ks d)) \<and>
      plot (x1, y1) c (staged c ks d) = (Returned, staged c ks d)"
    if d: "image d = img" "lineThickness d = lt" "flushDisablers d \<noteq> - 1" for d
    using ks [OF d]
    by (simp add: drawLine_def Let_def x0_def y0_def x1_def y1_def sx_def sy_def)
  then show ?thesis
    unfolding x1_def y1_def by blast
qed

lemma Image_set_error: "Image_set img p c = Inl e \<Longrightarrow> e = InvalidColor"
  by (auto simp: Image_set_def Let_def split: sum.splits if_splits dest: toColor_error)

lemma Image_add_error: "Image_add img p c = Inl e \<Longrightarrow> e = InvalidColor"
  by (auto simp: Image_add_def Let_def split: sum.splits prod.splits dest: toColor_error Image_set_error)

lemma flush_entry_error: "flush_entry b img entry = Inl e \<Longrightarrow> e = InvalidColor"
  by (auto simp: flush_entry_def Let_def split: sum.splits prod.splits if_splits
      dest: toColor_error Image_set_error Image_add_error)

lemma flush_loop_error: "flush_loop b entries img = (Thrown e, img') \<Longrightarrow> e = InvalidColor"
  by (induction entries arbitrary: img) (auto split: sum.splits dest: flush_entry_error)

lemma flush_error: "fst (flush d) = Thrown e \<Longrightarrow> e = InvalidColor"
  by (auto simp: flush_def split: if_splits prod.splits exit.splits dest: flush_loop_error)

lemma flush_error_pair: "flush d = (Thrown e, d') \<Longrightarrow> e = InvalidColor"
  using flush_error [of d e] by simp

lemma flush_flushDisablers: "flushDisablers (snd (flush d)) = flushDisablers d"
  by (auto simp: flush_def split: prod.splits exit.splits)

lemma flush_Returned_empty:
  "flushDisablers d = 0 \<Longrightarrow> fst (flush d) = Returned \<Longrightarrow> temporaryBuffer (snd (flush d)) = []"
  by (auto simp: flush_def split: prod.splits exit.splits)

lemma plot_error: "fst (plot p c d) = Thrown e \<Longrightarrow> e = InvalidColor"
  by (auto simp: plot_def Let_def drawFilledCircle_def split: if_splits dest: flush_error)

lemma line_loop_error_aux:
  assumes "line_loop en dl sg c st d = Some r"
  shows "\<forall>e. fst r = Thrown e \<longrightarrow> e = InvalidColor"
proof (rule line_loop.raw_induct
    [where P = "\<lambda>en dl sg c st d r. \<forall>e. fst r = Thrown e \<longrightarrow> e = InvalidColor", OF _ assms])
  fix f :: "int \<times> int \<Rightarrow> int \<times> int \<Rightarrow> int \<times> int \<Rightarrow> Color \<Rightarrow> int \<times> int \<times> int \<Rightarrow> ImageDrawer \<Rightarrow> outcome option"
    and en dl sg :: "int \<times> int" and c st d r
  assume IH: "\<And>en dl sg c st d r. f en dl sg c st d = Some r
      \<Longrightarrow> \<forall>e. fst r = Thrown e \<longrightarrow> e = InvalidColor"
    and step: "(let r = plot (fst st, fst (snd st)) c d
      in if fst r \<noteq> Returned then Some r
         else if fst st = fst en \<and> fst (snd st) = snd en then Some r
         else f en dl sg c (line_next (fst dl) (snd dl) (fst sg) (snd sg) st) (snd r)) = Some r"
  show "\<forall>e. fst r = Thrown e \<longrightarrow> e = InvalidColor"
  proof (cases "fst (plot (fst st, fst (snd st)) c d) = Returned")
    case True
    show ?thesis
    proof (cases "fst st = fst en \<and> fst (snd st) = snd en")
      case at_end: True
      with True step have "r = plot (fst st, fst (snd st)) c d"
        by (simp add: Let_def)
      with True show ?thesis by simp
    next
      case False
      with True step have "f en dl sg c (line_next (fst dl) (snd dl) (fst sg) (snd sg) st)
          (snd (plot (fst st, fst (snd st)) c d)) = Some r"
        by (simp add: Let_def)
      from IH [OF this] show ?thesis .
    qed
  next
    case False
    with step have "r = plot (fst st, fst (snd st)) c d"
      by (simp add: Let_def)
    then show ?thesis
      by (auto dest: plot_error)
  qed
qed

lemma line_loop_error:
  assumes "line_loop en dl sg c st d = Some r" "fst r = Thrown e"
  shows "e = InvalidColor"
  using line_loop_error_aux [OF assms(1)] assms(2) by blast

lemma drawLine_error:
  assumes "drawLine d a b c = Some r" "fst r = Thrown e"
  shows "e = InvalidColor"
  using assms
  by (auto simp: drawLine_def Let_def split: option.splits if_splits dest: line_loop_error flush_error)

lemma path_loop_error:
  assumes "path_loop lastPoint pts c d = Some r" "fst r = Thrown e"
  shows "e = InvalidColor"
  using assms
  by (induction pts arbitrary: lastPoint d)
     (auto split: option.splits if_splits dest: drawLine_error)

lemma bezier_loop_error_aux:
  assumes "bezier_loop pts c step t lastPoint d = Some r"
  shows "\<forall>e. fst r = Thrown e \<longrightarrow> e = InvalidColor \<or> e = TypeError"
proof (rule bezier_loop.raw_induct
    [where P = "\<lambda>pts c step t lastPoint d r. \<forall>e. fst r = Thrown e \<longrightarrow> e = InvalidColor \<or> e = TypeError",
     OF _ assms])
  fix f :: "Point list \<Rightarrow> Color \<Rightarrow> rat \<Rightarrow> rat \<Rightarrow> Point \<Rightarrow> ImageDrawer \<Rightarrow> outcome option"
    and pts c step t lastPoint d r
  assume IH: "\<And>pts c step t lastPoint d r. f pts c step t lastPoint d = Some r
      \<Longrightarrow> \<forall>e. fst r = Thrown e \<longrightarrow> e = InvalidColor \<or> e = TypeError"
    and step: "(if t \<le> 1 then
        (case lerpPoints pts t of
           None \<Rightarrow> Some (Thrown TypeError, d)
         | Some point \<Rightarrow>
             (case drawLine d lastPoint point c of
                None \<Rightarrow> None
              | Some r \<Rightarrow>
                  if fst r = Returned
                  then f pts c step (t + step) point (snd r)
                  else Some r))
      else Some (Returned, d)) = Some r"
  show "\<forall>e. fst r = Thrown e \<longrightarrow> e = InvalidColor \<or> e = TypeError"
  proof (cases "t \<le> 1")
    case False
    with step show ?thesis by auto
  next
    case True
    show ?thesis
    proof (cases "lerpPoints pts t")
      case None
      with True step show ?thesis by auto
    next
      case (Some point)
      show ?thesis
      proof (cases "drawLine d lastPoint point c")
        case None
        with True Some step show ?thesis by simp
      next
        case (Some r')
        show ?thesis
        proof (cases "fst r' = Returned")
          case True
          with \<open>t \<le> 1\<close> \<open>lerpPoints pts t = Some point\<close> Some step
          have "f pts c step (t + step) point (snd r') = Some r" by simp
          from IH [OF this] show ?thesis .
        next
          case False
          with \<open>t \<le> 1\<close> \<open>lerpPoints pts t = Some point\<close> Some step
          have "r = r'" by simp
          with Some show ?thesis by (auto dest: drawLine_error)
        qed
      qed
    qed
  qed
qed

lemma bezier_loop_error:
  assumes "bezier_loop pts c step t lastPoint d = Some r" "fst r = Thrown e"
  shows "e = InvalidColor \<or> e = TypeError"
  using bezier_loop_error_aux [OF assms(1)] assms(2) by blast

lemma stagerD:
  assumes "stager img c f"
  obtains ks where "\<And>d. image d = img \<Longrightarrow> f d = staged c ks d"
  using assms unfolding stager_def by blast

lemma flush_staged_exit:
  assumes "flushDisablers d = 0" "r = flush (staged c ks d)"
  shows "flushDisablers (snd r) = 0 \<and> (fst r = Returned \<longrightarrow> temporaryBuffer (snd r) = [])"
  using assms by (simp add: flush_flushDisablers flush_Returned_empty)

lemma stager_filled_rectangle:
  "stager img c (for_up y0 y1 (\<lambda>y. for_up x0 x1 (\<lambda>x. setPixel (x, y) c)))"
  by (rule stager_for_up, rule stager_for_up, rule stager_setPixel)

lemma stager_rectangle:
  "stager img c (\<lambda>d. for_up y0 y1 (\<lambda>y s. setPixel (x1, y) c (setPixel (x0, y) c s))
     (for_up x0 x1 (\<lambda>x s. setPixel (x, y1) c (setPixel (x, y0) c s)) d))"
  by (rule stager_comp; rule stager_for_up; rule stager_setPixel2)

lemma scan_row_staged:
  assumes "scan_row a b y c d = Some d'"
  shows "\<exists>ks. d' = staged c ks d"
proof -
  have fin: "\<exists>ks. for_up lo hi (\<lambda>x. setPixel (x, y) c) d = staged c ks d" for lo hi
  proof -
    have "stager (image d) c (for_up lo hi (\<lambda>x. setPixel (x, y) c))"
      by (rule stager_for_up) (rule stager_setPixel)
    then show ?thesis unfolding stager_def by blast
  qed
  have same: "\<exists>ks. d = staged c ks d"
    by (rule exI [of _ "[]"]) (simp add: staged_Nil)
  from assms show ?thesis
    by (cases a; cases b) (use fin same in auto)
qed

lemma tri_loop_staged:
  assumes "tri_loop dx1 dx2 c y yb xs d = Some (xs', d')"
  shows "\<exists>ks. d' = staged c ks d"
  using assms
proof (induction dx1 dx2 c y yb xs d rule: tri_loop.induct)
  case (1 dx1 dx2 c y yb xs d)
  show ?case
  proof (cases "y < yb")
    case False
    with "1.prems" have "d' = d" by (simp add: tri_loop.simps [of _ _ _ y])
    then show ?thesis by (intro exI [of _ "[]"]) (simp add: staged_Nil)
  next
    case True
    with "1.prems" obtain d1 where row: "scan_row (fst xs) (snd xs) y c d = Some d1"
      and rest: "tri_loop dx1 dx2 c (y + 1) yb (js_add (fst xs) dx1, js_add (snd xs) dx2) d1 = Some (xs', d')"
      by (auto simp: tri_loop.simps [of _ _ _ y] split: option.splits)
    from scan_row_staged [OF row] obtain ks1 where "d1 = staged c ks1 d" by blast
    moreover from "1.IH" [OF True row rest] obtain ks2 where "d' = staged c ks2 d1" by blast
    ultimately have "d' = staged c (ks1 @ ks2) d" by (simp add: staged_staged)
    then show ?thesis by blast
  qed
qed

lemma drawTriangle_staged:
  assumes "drawTriangle d t c = Some r"
  shows "\<exists>ks. r = flush (staged c ks d)"
proof -
  obtain x0 y0 x1 y1 x2 y2 where t: "t = ((x0, y0), (x1, y1), (x2, y2))"
    by (metis prod.exhaust)
  from assms obtain xs d1 xs' d2 where
    1: "tri_loop (js_div (Fin (x1 - x0)) (Fin (y1 - y0))) (js_div (Fin (x2 - x0)) (Fin (y2 - y0)))
          c y0 y1 (Fin x0, Fin x0) d = Some (xs, d1)" and
    2: "tri_loop (js_div (Fin (x2 - x1)) (Fin (y2 - y1))) (js_div (Fin (x2 - x0)) (Fin (y2 - y0)))
          c y1 y2 (fst xs, Fin x1) d1 = Some (xs', d2)" and
    r: "r = flush d2"
    unfolding drawTriangle_def t Let_def prod.case
    by (auto split: option.splits)
  from tri_loop_staged [OF 1] tri_loop_staged [OF 2] obtain ks1 ks2
    where "d2 = staged c (ks1 @ ks2) d" by (auto simp: staged_staged)
  with r show ?thesis by blast
qed

lemma path_loop_staged:
  "\<exists>ks. \<forall>d. image d = img \<and> lineThickness d = lt \<and> flushDisablers d \<noteq> - 1 \<and> flushDisablers d \<noteq> 0
      \<longrightarrow> path_loop lastPoint pts c d = Some (Returned, staged c ks d)"
proof (induction pts arbitrary: lastPoint)
  case Nil
  show ?case by (intro exI [of _ "[]"]) (simp add: staged_Nil)
next
  case (Cons p pts)
  from drawLine_staged [of img lt lastPoint p c]
  obtain ks1 where ks1: "\<And>d. image d = img \<Longrightarrow> lineThickness d = lt \<Longrightarrow> flushDisablers d \<noteq> - 1
      \<Longrightarrow> drawLine d lastPoint p c = Some (flush (staged c ks1 d))"
    by blast
  from Cons [of p]
  obtain ks2 where ks2: "\<And>d. image d = img \<Longrightarrow> lineThickness d = lt \<Longrightarrow> flushDisablers d \<noteq> - 1
      \<Longrightarrow> flushDisablers d \<noteq> 0 \<Longrightarrow> path_loop p pts c d = Some (Returned, staged c ks2 d)"
    by blast
  have "path_loop lastPoint (p # pts) c d = Some (Returned, staged c (ks1 @ ks2) d)"
    if d: "image d = img" "lineThickness d = lt" "flushDisablers d \<noteq> - 1" "flushDisablers d \<noteq> 0" for d
  proof -
    have "drawLine d lastPoint p c = Some (Returned, staged c ks1 d)"
      using ks1 [OF d(1-3)] d(4) by (simp add: flush_disabled)
    moreover have "path_loop p pts c (staged c ks1 d) = Some (Returned, staged c ks2 (staged c ks1 d))"
      using d by (intro ks2) simp_all
    ultimately show ?thesis by (simp add: staged_staged)
  qed
  then show ?case by blast
qed

lemma drawPath_staged:
  assumes "2 \<le> length pts"
  shows "\<exists>ks. \<forall>d. image d = img \<and> lineThickness d = lt \<and> flushDisablers d = 0
      \<longrightarrow> drawPath d pts c = Some (flush (staged c ks d))"
proof -
  from path_loop_staged [of img lt "hd pts" "tl pts" c]
  obtain ks where ks: "\<And>d. image d = img \<Longrightarrow> lineThickness d = lt \<Longrightarrow> flushDisablers d \<noteq> - 1
      \<Longrightarrow> flushDisablers d \<noteq> 0 \<Longrightarrow> path_loop (hd pts) (tl pts) c d = Some (Returned, staged c ks d)"
    by blast
  have "drawPath d pts c = Some (flush (staged c ks d))"
    if d: "image d = img" "lineThickness d = lt" "flushDisablers d = 0" for d
  proof -
    have "path_loop (hd pts) (tl pts) c (d\<lparr>flushDisablers := flushDisablers d + 1\<rparr>)
        = Some (Returned, staged c ks (d\<lparr>flushDisablers := flushDisablers d + 1\<rparr>))"
      using d by (intro ks) simp_all
    moreover have "(staged c ks (d\<lparr>flushDisablers := flushDisablers d + 1\<rparr>))
        \<lparr>flushDisablers := flushDisablers (staged c ks (d\<lparr>flushDisablers := flushDisablers d + 1\<rparr>)) - 1\<rparr>
        = staged c ks d"
      by (simp add: staged_def)
    then have "flush ((staged c ks (d\<lparr>flushDisablers := flushDisablers d + 1\<rparr>))
        \<lparr>flushDisablers := flushDisablers (staged c ks (d\<lparr>flushDisablers := flushDisablers d + 1\<rparr>)) - 1\<rparr>)
        = flush (staged c ks d)"
      by (rule arg_cong)
    ultimately show ?thesis
      using assms by (simp add: drawPath_def)
  qed
  then show ?thesis by blast
qed

lemma lerpPoints_Some: "pts \<noteq> [] \<Longrightarrow> \<exists>p. lerpPoints pts t = Some p"
proof (induction pts t rule: lerpPoints.induct)
  case (1 points t)
  show ?case
  proof (cases "length points > 1")
    case True
    have "length (lerp_pairs t points) = length points - 1"
      by (induction t points rule: lerp_pairs.induct) auto
    with True have "lerp_pairs t points \<noteq> []" by auto
    from "1.IH" [OF True this] True show ?thesis
      by (simp add: lerpPoints.simps [of points])
  next
    case False
    with "1.prems" show ?thesis
      by (cases points) (simp_all add: lerpPoints.simps)
  qed
qed

lemma bezier_loop_staged:
  assumes "bezier_loop pts c step t lastPoint d = Some r"
  shows "pts \<noteq> [] \<longrightarrow> flushDisablers d \<noteq> 0 \<longrightarrow> flushDisablers d \<noteq> - 1 \<longrightarrow>
           fst r = Returned \<and> (\<exists>ks. snd r = staged c ks d)"
proof (rule bezier_loop.raw_induct
    [where P = "\<lambda>pts c step t lastPoint d r.
        pts \<noteq> [] \<longrightarrow> flushDisablers d \<noteq> 0 \<longrightarrow> flushDisablers d \<noteq> - 1 \<longrightarrow>
          fst r = Returned \<and> (\<exists>ks. snd r = staged c ks d)", OF _ assms])
  fix f :: "Point list \<Rightarrow> Color \<Rightarrow> rat \<Rightarrow> rat \<Rightarrow> Point \<Rightarrow> ImageDrawer \<Rightarrow> outcome option"
    and pts c step t lastPoint d r
  assume IH: "\<And>pts c step t lastPoint d r. f pts c step t lastPoint d = Some r
      \<Longrightarrow> pts \<noteq> [] \<longrightarrow> flushDisablers d \<noteq> 0 \<longrightarrow> flushDisablers d \<noteq> - 1 \<longrightarrow>
          fst r = Returned \<and> (\<exists>ks. snd r = staged c ks d)"
    and step: "(if t \<le> 1 then
        (case lerpPoints pts t of
           None \<Rightarrow> Some (Thrown TypeError, d)
         | Some point \<Rightarrow>
             (case drawLine d lastPoint point c of
                None \<Rightarrow> None
              | Some r \<Rightarrow>
                  if fst r = Returned
                  then f pts c step (t + step) point (snd r)
                  else Some r))
      else Some (Returned, d)) = Some r"
  show "pts \<noteq> [] \<longrightarrow> flushDisablers d \<noteq> 0 \<longrightarrow> flushDisablers d \<noteq> - 1 \<longrightarrow>
          fst r = Returned \<and> (\<exists>ks. snd r = staged c ks d)"
  proof (intro impI)
    assume pts: "pts \<noteq> []" and fd: "flushDisablers d \<noteq> 0" "flushDisablers d \<noteq> - 1"
    show "fst r = Returned \<and> (\<exists>ks. snd r = staged c ks d)"
    proof (cases "t \<le> 1")
      case False
      with step have "r = (Returned, d)" by simp
      then show ?thesis by (auto intro: exI [of _ "[]"] simp: staged_Nil)
    next
      case True
      from lerpPoints_Some [OF pts] obtain point where point: "lerpPoints pts t = Some point"
        by blast
      from drawLine_staged [of "image d" "lineThickness d" lastPoint point c]
      obtain ks1 where "drawLine d lastPoint point c = Some (flush (staged c ks1 d))"
        using fd by blast
      with fd have line: "drawLine d lastPoint point c = Some (Returned, staged c ks1 d)"
        by (simp add: flush_disabled)
      with True point step have "f pts c step (t + step) point (staged c ks1 d) = Some r"
        by simp
      from IH [OF this] pts fd obtain ks2 where "fst r = Returned" "snd r = staged c ks2 (staged c ks1 d)"
        by auto
      then show ?thesis by (auto simp: staged_staged)
    qed
  qed
qed

lemma drawBezier_staged:
  assumes "2 \<le> length pts" "flushDisablers d = 0" "drawBezier d pts c step = Some r"
  shows "\<exists>ks. r = flush (staged c ks d)"
proof -
  define d1 where "d1 = d\<lparr>flushDisablers := flushDisablers d + 1\<rparr>"
  define looped where "looped = (case (case step of None \<Rightarrow> default_step pts | Some s \<Rightarrow> Fin s) of
                           Fin s \<Rightarrow> bezier_loop pts c s s (hd pts) d1
                         | PInf \<Rightarrow> Some (Returned, d1)
                         | NaN \<Rightarrow> Some (Returned, d1)
                         | NInf \<Rightarrow> None)"
  from assms(1) have pts: "pts \<noteq> []" by auto
  have fd1: "flushDisablers d1 \<noteq> 0" "flushDisablers d1 \<noteq> - 1"
    using assms(2) by (simp_all add: d1_def)
  from assms have res: "looped \<noteq> None"
    "r = (if fst (the looped) = Returned
          then flush ((snd (the looped))\<lparr>flushDisablers := flushDisablers (snd (the looped)) - 1\<rparr>)
          else the looped)"
    unfolding drawBezier_def Let_def looped_def [symmetric] d1_def [symmetric]
    by (auto split: option.splits if_splits)
  then obtain r1 where r1: "looped = Some r1" by auto
  have "fst r1 = Returned \<and> (\<exists>ks. snd r1 = staged c ks d1)"
  proof (cases "case step of None \<Rightarrow> default_step pts | Some s \<Rightarrow> Fin s")
    case (Fin s)
    with r1 have "bezier_loop pts c s s (hd pts) d1 = Some r1"
      by (simp add: looped_def)
    from bezier_loop_staged [OF this] pts fd1 show ?thesis by blast
  next
    case PInf
    with r1 have "r1 = (Returned, d1)" by (simp add: looped_def)
    then show ?thesis by (auto intro: exI [of _ "[]"] simp: staged_Nil)
  next
    case NInf
    with r1 show ?thesis by (simp add: looped_def)
  next
    case NaN
    with r1 have "r1 = (Returned, d1)" by (simp add: looped_def)
    then show ?thesis by (auto intro: exI [of _ "[]"] simp: staged_Nil)
  qed
  then obtain ks where ret: "fst r1 = Returned" and ks: "snd r1 = staged c ks d1" by blast
  have "(staged c ks d1)\<lparr>flushDisablers := flushDisablers (staged c ks d1) - 1\<rparr> = staged c ks d"
    by (simp add: d1_def staged_def)
  with res(2) r1 ret ks have "r = flush (staged c ks d)" by simp
  then show ?thesis by blast
qed

lemma fill_exit:
  "flushDisablers (snd (fill d c)) = flushDisablers d \<and> temporaryBuffer (snd (fill d c)) = []"
  by (auto simp: fill_def Let_def split: sum.splits prod.splits)

lemma run_staged:
  assumes fd: "flushDisablers d = 0" and run: "run op d = Some r" and shape: "\<forall>c. op \<noteq> Fill c"
  shows "r = (Thrown InvalidPoints, d) \<or> (\<exists>ks. r = flush (staged (color_of op) ks d))"
proof -
  have via_stager: "\<exists>ks. r = flush (staged c ks d)" if "stager (image d) c f" "r = flush (f d)" for c f
  proof -
    from stagerD [OF that(1)] obtain ks where "f d = staged c ks d" by blast
    with that(2) show ?thesis by auto
  qed
  show ?thesis
  proof (cases op)
    case (DrawLine a b c)
    from drawLine_staged [of "image d" "lineThickness d" a b c] fd
    obtain ks where "drawLine d a b c = Some (flush (staged c ks d))" by auto
    with run DrawLine show ?thesis by auto
  next
    case (DrawFilledRectangle a b c)
    obtain x0 y0 x1 y1 where "a = (x0, y0)" "b = (x1, y1)" by (cases a; cases b)
    with run DrawFilledRectangle
    have "r = flush (for_up y0 y1 (\<lambda>y. for_up x0 x1 (\<lambda>x. setPixel (x, y) c)) d)"
      by (auto simp: drawFilledRectangle_def)
    from via_stager [OF stager_filled_rectangle this] DrawFilledRectangle show ?thesis by simp
  next
    case (DrawRectangle a b c)
    obtain x0 y0 x1 y1 where "a = (x0, y0)" "b = (x1, y1)" by (cases a; cases b)
    with run DrawRectangle
    have "r = flush (for_up y0 y1 (\<lambda>y s. setPixel (x1, y) c (setPixel (x0, y) c s))
       (for_up x0 x1 (\<lambda>x s. setPixel (x, y1) c (setPixel (x, y0) c s)) d))"
      by (auto simp: drawRectangle_def Let_def)
    from via_stager [OF stager_rectangle this] DrawRectangle show ?thesis by simp
  next
    case (DrawCircle p rad c)
    have "stager (image d) c (octant_loop (circle_points p c) 0 rad (3 - 2 * rad))"
      by (rule stager_octant) (rule stager_circle_points)
    moreover from run DrawCircle
    have "r = flush (octant_loop (circle_points p c) 0 rad (3 - 2 * rad) d)"
      by (auto simp: drawCircle_def)
    ultimately show ?thesis using via_stager DrawCircle by simp
  next
    case (DrawFilledCircle p rad c)
    have "stager (image d) c (octant_loop (disc_spans p c) 0 rad (3 - 2 * rad))"
      by (rule stager_octant) (rule stager_disc_spans)
    moreover from run DrawFilledCircle
    have "r = flush (octant_loop (disc_spans p c) 0 rad (3 - 2 * rad) d)"
      by (auto simp: drawFilledCircle_def)
    ultimately show ?thesis using via_stager DrawFilledCircle by simp
  next
    case (DrawTriangle t c)
    with run drawTriangle_staged [of d t c r] show ?thesis by auto
  next
    case (DrawPath pts c)
    show ?thesis
    proof (cases "length pts < 2")
      case True
      with run DrawPath show ?thesis by (auto simp: drawPath_def)
    next
      case False
      then have "2 \<le> length pts" by simp
      from drawPath_staged [OF this, of "image d" "lineThickness d" c] fd
      obtain ks where "drawPath d pts c = Some (flush (staged c ks d))" by auto
      with run DrawPath show ?thesis by auto
    qed
  next
    case (DrawBezier pts c step)
    show ?thesis
    proof (cases "length pts < 2")
      case True
      with run DrawBezier show ?thesis by (auto simp: drawBezier_def)
    next
      case False
      then have "2 \<le> length pts" by simp
      from run DrawBezier have "drawBezier d pts c step = Some r" by simp
      from drawBezier_staged [OF \<open>2 \<le> length pts\<close> fd this] DrawBezier
      show ?thesis by simp
    qed
  next
    case (Fill c)
    with shape show ?thesis by simp
  qed
qed

lemma run_exit_state:
  assumes fd: "flushDisablers d = 0" and run: "run op d = Some r"
  shows "flushDisablers (snd r) = 0 \<and> (fst r = Returned \<longrightarrow> temporaryBuffer (snd r) = [])"
proof (cases "\<exists>c. op = Fill c")
  case True
  with run fill_exit [of d] fd show ?thesis by auto
next
  case False
  with run_staged [OF fd run]
  consider "r = (Thrown InvalidPoints, d)" | ks where "r = flush (staged (color_of op) ks d)"
    by blast
  then show ?thesis
  proof cases
    case 1
    with fd show ?thesis by simp
  next
    case 2
    from flush_staged_exit [OF fd this] show ?thesis .
  qed
qed

subsection \<open>A repeated point, and the flush of one color\<close>

lemma drawLine_same_point:
  assumes "flushDisablers d \<noteq> 0"
    and "plot (round_rat (fst p), round_rat (snd p)) c d = (Returned, d)"
  shows "drawLine d p p c = Some (Returned, d)"
proof -
  have "line_loop (round_rat (fst p), round_rat (snd p)) (0, 0) (- 1, - 1) c
      (round_rat (fst p), round_rat (snd p), 0) d = Some (Returned, d)"
    unfolding line_loop_step [OF assms(2)] by simp
  then show ?thesis
    using assms(1) by (simp add: drawLine_def flush_disabled)
qed

lemma path_loop_dup:
  assumes d: "flushDisablers d \<noteq> - 1" "flushDisablers d \<noteq> 0"
  shows "path_loop lastPoint (p # p # post) c d = path_loop lastPoint (p # post) c d"
proof -
  from drawLine_staged [of "image d" "lineThickness d" lastPoint p c] d
  obtain ks where line: "drawLine d lastPoint p c = Some (flush (staged c ks d))"
    and fixpt: "plot (round_rat (fst p), round_rat (snd p)) c (staged c ks d) = (Returned, staged c ks d)"
    by blast
  from line d have line': "drawLine d lastPoint p c = Some (Returned, staged c ks d)"
    by (simp add: flush_disabled)
  have "drawLine (staged c ks d) p p c = Some (Returned, staged c ks d)"
    using d fixpt by (intro drawLine_same_point) simp_all
  with line' show ?thesis by simp
qed

lemma path_loop_dup_append:
  assumes d: "flushDisablers d \<noteq> - 1" "flushDisablers d \<noteq> 0"
  shows "path_loop lastPoint (pre @ p # p # post) c d = path_loop lastPoint (pre @ p # post) c d"
  using d
proof (induction pre arbitrary: lastPoint d)
  case Nil
  show ?case by (simp only: append_Nil path_loop_dup [OF Nil.prems])
next
  case (Cons q pre)
  from drawLine_staged [of "image d" "lineThickness d" lastPoint q c] Cons.prems
  obtain ks where "drawLine d lastPoint q c = Some (flush (staged c ks d))"
    by blast
  with Cons.prems have line: "drawLine d lastPoint q c = Some (Returned, staged c ks d)"
    by (simp add: flush_disabled)
  have "path_loop q (pre @ p # p # post) c (staged c ks d) = path_loop q (pre @ p # post) c (staged c ks d)"
    using Cons.prems by (intro Cons.IH) simp_all
  with line show ?case by simp
qed

lemma drawPath_dup:
  assumes "flushDisablers d = 0" "pre \<noteq> []"
  shows "drawPath d (pre @ p # p # post) c = drawPath d (pre @ p # post) c"
proof -
  from assms(2) obtain q pre' where pre: "pre = q # pre'" by (cases pre) auto
  have "path_loop q (pre' @ p # p # post) c (d\<lparr>flushDisablers := flushDisablers d + 1\<rparr>)
      = path_loop q (pre' @ p # post) c (d\<lparr>flushDisablers := flushDisablers d + 1\<rparr>)"
    using assms(1) by (intro path_loop_dup_append) simp_all
  then show ?thesis
    by (simp add: drawPath_def pre)
qed

lemma Image_add_out_of_range:
  assumes "toColor c = Inr cn"
    and "round_rat (snd p) < 0 \<or> int (height img) \<le> round_rat (snd p)"
  shows "Image_add img p c = Inr img"
proof -
  obtain r3 g3 b3 a3 where "blend (Image_get img p) cn = (r3, g3, b3, a3)"
    by (metis prod.exhaust)
  then show ?thesis
    using assms by (auto simp: Image_add_def Image_set_def toColor_ColorArray4 Let_def)
qed

lemma Image_add_nat:
  assumes "x < width img" "y < height img" "toColor c = Inr cn" "i = (y * width img + x) * 4"
    and "blend (Image_get img (rat_of_nat x, rat_of_nat y)) cn = (r3, g3, b3, a3)"
  shows "Image_add img (rat_of_nat x, rat_of_nat y) c =
    Inr (img\<lparr>buffer := (buffer img)
       [i := ToUint8Clamp r3, i + 1 := ToUint8Clamp g3,
        i + 2 := ToUint8Clamp b3, i + 3 := ToUint8Clamp a3]\<rparr>)"
  using Image_set_nat [OF toColor_ColorArray4 assms(1,2,4), of r3 g3 b3 a3] assms(3,5)
  by (simp add: Image_add_def Let_def del: ToUint8Clamp.simps)

lemma pixel_key_inj:
  fixes x y x' y' w :: nat
  assumes "x < w" "x' < w" "y * w + x = y' * w + x'"
  shows "x = x' \<and> y = y'"
proof -
  from assms have "(y * w + x) mod w = (y' * w + x') mod w" "(y * w + x) div w = (y' * w + x') div w"
    by simp_all
  with assms(1,2) show ?thesis by simp
qed

lemma Image_get_update_same:
  assumes wf: "length (buffer img) = width img * height img * 4"
    and xy: "x < width img" "y < height img" and i: "i = (y * width img + x) * 4"
  shows "Image_get (img\<lparr>buffer := (buffer img)[i := a0, i + 1 := a1, i + 2 := a2, i + 3 := a3]\<rparr>)
           (rat_of_nat x, rat_of_nat y)
         = (Fin (rat_of_nat (unat a0)), Fin (rat_of_nat (unat a1)),
            Fin (rat_of_nat (unat a2)), Fin (rat_of_nat (unat a3)))"
proof -
  define img' where "img' = img\<lparr>buffer := (buffer img)[i := a0, i + 1 := a1, i + 2 := a2, i + 3 := a3]\<rparr>"
  have wf': "length (buffer img') = width img' * height img' * 4"
    "x < width img'" "y < height img'" "i = (y * width img' + x) * 4"
    using wf xy i by (simp_all add: img'_def)
  have lt: "i + 3 < length (buffer img)"
    using pixel_index_bound [OF xy] wf i by simp
  show ?thesis
    unfolding img'_def [symmetric] Image_get_nat [OF wf'] using lt
    by (simp add: img'_def del: of_nat_unat)
qed

lemma Image_get_update_other:
  assumes wf: "length (buffer img) = width img * height img * 4"
    and xy: "x < width img" "y < height img" and i: "i = (y * width img + x) * 4"
    and xy': "x' < width img" "y' < height img" and ne: "(x', y') \<noteq> (x, y)"
  shows "Image_get (img\<lparr>buffer := (buffer img)[i := a0, i + 1 := a1, i + 2 := a2, i + 3 := a3]\<rparr>)
           (rat_of_nat x', rat_of_nat y')
         = Image_get img (rat_of_nat x', rat_of_nat y')"
proof -
  define img' where "img' = img\<lparr>buffer := (buffer img)[i := a0, i + 1 := a1, i + 2 := a2, i + 3 := a3]\<rparr>"
  define i' where "i' = (y' * width img + x') * 4"
  have wf': "length (buffer img') = width img' * height img' * 4"
    "x' < width img'" "y' < height img'" "i' = (y' * width img' + x') * 4"
    using wf xy' by (simp_all add: img'_def i'_def)
  define k k' where "k = y * width img + x" and "k' = y' * width img + x'"
  have "k' \<noteq> k"
  proof
    assume "k' = k"
    then have "y' * width img + x' = y * width img + x"
      by (simp only: k_def k'_def)
    from pixel_key_inj [OF xy'(1) xy(1) this] ne show False by simp
  qed
  moreover have "i = k * 4" "i' = k' * 4"
    by (simp_all add: i i'_def k_def k'_def)
  ultimately have ne: "i \<noteq> i' + a \<and> i + 1 \<noteq> i' + a \<and> i + 2 \<noteq> i' + a \<and> i + 3 \<noteq> i' + a"
    if "a < 4" for a
    using that by arith
  have same: "buffer img' ! j = buffer img ! j"
    if "i \<noteq> j \<and> i + 1 \<noteq> j \<and> i + 2 \<noteq> j \<and> i + 3 \<noteq> j" for j
    using that by (simp add: img'_def)
  have b: "buffer img' ! i' = buffer img ! i'" "buffer img' ! (i' + 1) = buffer img ! (i' + 1)"
    "buffer img' ! (i' + 2) = buffer img ! (i' + 2)" "buffer img' ! (i' + 3) = buffer img ! (i' + 3)"
    using same [OF ne [of 0]] same [OF ne [of 1]] same [OF ne [of 2]] same [OF ne [of 3]]
    by simp_all
  show ?thesis
    unfolding img'_def [symmetric] Image_get_nat [OF wf'] Image_get_nat [OF wf xy' i'_def] b
    by (rule refl)
qed

lemma pixel_key_bound:
  fixes x y w h :: nat
  assumes "x < w" "y < h"
  shows "y * w + x < w * h"
  using pixel_index_bound [OF assms] by simp

lemma flush_entry_blend:
  assumes wf: "length (buffer img) = width img * height img * 4" and col: "toColor c = Inr cn"
  shows "\<exists>img1. flush_entry True img (k, c) = Inr img1 \<and>
           width img1 = width img \<and> height img1 = height img \<and>
           length (buffer img1) = length (buffer img) \<and>
           (\<forall>x y. x < width img \<longrightarrow> y < height img \<longrightarrow>
              Image_get img1 (rat_of_nat x, rat_of_nat y) =
                (if int (y * width img + x) = k
                 then stored (blend (Image_get img (rat_of_nat x, rat_of_nat y)) cn)
                 else Image_get img (rat_of_nat x, rat_of_nat y)))"
proof (cases "width img = 0")
  case True
  then show ?thesis
    using col by (simp add: flush_entry_def)
next
  case False
  then have W: "0 < width img" by simp
  show ?thesis
  proof (cases "0 \<le> k \<and> k < int (width img * height img)")
    case inside: True
    define n where "n = nat k"
    define x0 y0 where "x0 = n mod width img" and "y0 = n div width img"
    have k: "k = int n" using inside by (simp add: n_def)
    have "int n < int (width img * height img)" using inside by (simp add: n_def)
    then have n: "n < width img * height img" by (simp only: of_nat_less_iff)
    have x0: "x0 < width img" using W by (simp add: x0_def)
    have y0: "y0 < height img"
      unfolding y0_def using n by (simp add: less_mult_imp_div_less mult.commute)
    have key: "y0 * width img + x0 = n"
      by (simp add: x0_def y0_def)
    have px: "int_rem k (int (width img)) = int x0"
      unfolding k x0_def int_rem_def by (cases "n = 0") (simp_all add: zmod_int)
    have py: "k div int (width img) = int y0"
      unfolding k y0_def by (simp add: zdiv_int)
    obtain r3 g3 b3 a3 where bl: "blend (Image_get img (rat_of_nat x0, rat_of_nat y0)) cn = (r3, g3, b3, a3)"
      by (metis prod.exhaust)
    define i where "i = (y0 * width img + x0) * 4"
    define img1 where "img1 = img\<lparr>buffer := (buffer img)
       [i := ToUint8Clamp r3, i + 1 := ToUint8Clamp g3,
        i + 2 := ToUint8Clamp b3, i + 3 := ToUint8Clamp a3]\<rparr>"
    have "flush_entry True img (k, c) = Image_add img (rat_of_nat x0, rat_of_nat y0) c"
      using False by (simp add: flush_entry_def px py)
    also have "\<dots> = Inr img1"
      unfolding img1_def by (rule Image_add_nat [OF x0 y0 col i_def bl])
    finally have 1: "flush_entry True img (k, c) = Inr img1" .
    have 2: "Image_get img1 (rat_of_nat x, rat_of_nat y) =
                (if int (y * width img + x) = k
                 then stored (blend (Image_get img (rat_of_nat x, rat_of_nat y)) cn)
                 else Image_get img (rat_of_nat x, rat_of_nat y))"
      if xy: "x < width img" "y < height img" for x y
    proof (cases "int (y * width img + x) = k")
      case True
      with k have "int (y * width img + x) = int n" by simp
      then have "y * width img + x = n" by (simp only: of_nat_eq_iff)
      with key have "y * width img + x = y0 * width img + x0" by simp
      from pixel_key_inj [OF xy(1) x0 this] have same: "x = x0" "y = y0" by simp_all
      have "Image_get img1 (rat_of_nat x0, rat_of_nat y0) = stored (r3, g3, b3, a3)"
        unfolding img1_def Image_get_update_same [OF wf x0 y0 i_def]
        by (simp add: stored_def del: of_nat_unat ToUint8Clamp.simps)
      with True bl show ?thesis by (simp add: same)
    next
      case False
      with k key have "(x, y) \<noteq> (x0, y0)" by auto
      from Image_get_update_other [OF wf x0 y0 i_def xy this] False show ?thesis
        by (simp add: img1_def)
    qed
    from 1 2 show ?thesis
      by (intro exI [of _ img1]) (simp add: img1_def)
  next
    case outside: False
    have rng: "k div int (width img) < 0 \<or> int (height img) \<le> k div int (width img)"
    proof (cases "k < 0")
      case True
      with W show ?thesis by (simp add: div_neg_pos_less0)
    next
      case False
      with outside have "int (width img) * int (height img) \<le> k" by simp
      then have "(int (width img) * int (height img)) div int (width img) \<le> k div int (width img)"
        using W by (intro zdiv_mono1) simp_all
      with W show ?thesis by simp
    qed
    have "flush_entry True img (k, c) = Inr img"
      using False rng
      by (simp add: flush_entry_def Image_add_out_of_range [OF col] round_rat_of_int)
    moreover have "int (y * width img + x) \<noteq> k" if "x < width img" "y < height img" for x y
    proof -
      from pixel_key_bound [OF that]
      have "int (y * width img + x) < int (width img * height img)"
        by (simp only: of_nat_less_iff)
      with outside show ?thesis by auto
    qed
    ultimately show ?thesis by simp
  qed
qed

lemma flush_loop_blend:
  assumes "distinct (map fst es)" and "\<forall>e \<in> set es. snd e = c" and col: "toColor c = Inr cn"
    and wf: "length (buffer img) = width img * height img * 4"
  shows "\<exists>img'. flush_loop True es img = (Returned, img') \<and>
           width img' = width img \<and> height img' = height img \<and>
           (\<forall>x y. x < width img \<longrightarrow> y < height img \<longrightarrow>
              Image_get img' (rat_of_nat x, rat_of_nat y) =
                (if int (y * width img + x) \<in> fst ` set es
                 then stored (blend (Image_get img (rat_of_nat x, rat_of_nat y)) cn)
                 else Image_get img (rat_of_nat x, rat_of_nat y)))"
  using assms(1,2) wf
proof (induction es arbitrary: img)
  case Nil
  then show ?case by simp
next
  case (Cons e es)
  obtain k where e: "e = (k, c)" using Cons.prems(2) by (cases e) auto
  from flush_entry_blend [OF Cons.prems(3) col, of k]
  obtain img1 where 1: "flush_entry True img (k, c) = Inr img1"
    and dims: "width img1 = width img" "height img1 = height img"
    and len: "length (buffer img1) = length (buffer img)"
    and px1: "\<And>x y. x < width img \<Longrightarrow> y < height img \<Longrightarrow>
              Image_get img1 (rat_of_nat x, rat_of_nat y) =
                (if int (y * width img + x) = k
                 then stored (blend (Image_get img (rat_of_nat x, rat_of_nat y)) cn)
                 else Image_get img (rat_of_nat x, rat_of_nat y))"
    by blast
  have wf1: "length (buffer img1) = width img1 * height img1 * 4"
    using Cons.prems(3) dims len by simp
  from Cons.prems have "distinct (map fst es)" "\<forall>e \<in> set es. snd e = c" by simp_all
  from Cons.IH [OF this wf1]
  obtain img' where 2: "flush_loop True es img1 = (Returned, img')"
    and dims': "width img' = width img1" "height img' = height img1"
    and px2: "\<And>x y. x < width img1 \<Longrightarrow> y < height img1 \<Longrightarrow>
              Image_get img' (rat_of_nat x, rat_of_nat y) =
                (if int (y * width img1 + x) \<in> fst ` set es
                 then stored (blend (Image_get img1 (rat_of_nat x, rat_of_nat y)) cn)
                 else Image_get img1 (rat_of_nat x, rat_of_nat y))"
    by blast
  from Cons.prems(1) e have knew: "k \<notin> fst ` set es" by simp
  have "Image_get img' (rat_of_nat x, rat_of_nat y) =
                (if int (y * width img + x) \<in> fst ` set (e # es)
                 then stored (blend (Image_get img (rat_of_nat x, rat_of_nat y)) cn)
                 else Image_get img (rat_of_nat x, rat_of_nat y))"
    if xy: "x < width img" "y < height img" for x y
    using px2 [of x y] px1 [OF xy] xy dims knew e by auto
  with 1 2 dims dims' e show ?case by simp
qed

lemma Image_add_get:
  assumes wf: "length (buffer img) = width img * height img * 4"
    and xy: "x < width img" "y < height img" and col: "toColor c = Inr cn"
  shows "\<exists>img1. Image_add img (rat_of_nat x, rat_of_nat y) c = Inr img1 \<and>
           Image_get img1 (rat_of_nat x, rat_of_nat y)
             = stored (blend (Image_get img (rat_of_nat x, rat_of_nat y)) cn)"
proof -
  obtain r3 g3 b3 a3 where bl: "blend (Image_get img (rat_of_nat x, rat_of_nat y)) cn = (r3, g3, b3, a3)"
    by (metis prod.exhaust)
  define i where "i = (y * width img + x) * 4"
  from Image_add_nat [OF xy col i_def bl] Image_get_update_same [OF wf xy i_def]
  show ?thesis
    by (simp add: bl stored_def del: of_nat_unat ToUint8Clamp.simps)
qed

lemma flush_staged_blend:
  assumes wf: "length (buffer (image d)) = width (image d) * height (image d) * 4"
    and top: "flushDisablers d = 0" "temporaryBuffer d = []"
    and bl: "blending d"
    and col: "toColor c = Inr cn"
  shows "\<exists>d'. flush (staged c ks d) = (Returned, d') \<and>
           (\<forall>x y. x < width (image d) \<longrightarrow> y < height (image d) \<longrightarrow>
              Image_get (image d') (rat_of_nat x, rat_of_nat y)
                = Image_get (image d) (rat_of_nat x, rat_of_nat y) \<or>
              Image_get (image d') (rat_of_nat x, rat_of_nat y)
                = stored (blend (Image_get (image d) (rat_of_nat x, rat_of_nat y)) cn))"
proof -
  define es where "es = stage_all ks c []"
  have "distinct (map fst es)"
    unfolding es_def by (rule distinct_stage_all) simp
  moreover have "\<forall>e \<in> set es. snd e = c"
    using values_stage_all [of ks c "[]"] by (auto simp: es_def)
  ultimately obtain img' where loop: "flush_loop True es (image d) = (Returned, img')"
    and px: "\<And>x y. x < width (image d) \<Longrightarrow> y < height (image d) \<Longrightarrow>
              Image_get img' (rat_of_nat x, rat_of_nat y) =
                (if int (y * width (image d) + x) \<in> fst ` set es
                 then stored (blend (Image_get (image d) (rat_of_nat x, rat_of_nat y)) cn)
                 else Image_get (image d) (rat_of_nat x, rat_of_nat y))"
    using flush_loop_blend [OF _ _ col wf, of es] by blast
  have "flush (staged c ks d) = (Returned, (staged c ks d)\<lparr>image := img', temporaryBuffer := []\<rparr>)"
    using top bl loop by (simp add: flush_def es_def)
  moreover have "Image_get img' (rat_of_nat x, rat_of_nat y)
                = Image_get (image d) (rat_of_nat x, rat_of_nat y) \<or>
              Image_get img' (rat_of_nat x, rat_of_nat y)
                = stored (blend (Image_get (image d) (rat_of_nat x, rat_of_nat y)) cn)"
    if "x < width (image d)" "y < height (image d)" for x y
    using px [OF that] by (simp split: if_splits)
  ultimately show ?thesis by simp
qed

section \<open>Properties of the shapes\<close>

text \<open>
  C8. On a 10 by 10 image filled with \<^verbatim>\<open>#000000\<close>, the line from \<open>(0, 0)\<close> to \<open>(9, 9)\<close>
  in \<^verbatim>\<open>#FFFFFF\<close> makes the ten pixels of the main diagonal (those with
  \<open>i mod 10 = i div 10\<close>) white and leaves every other pixel black.
\<close>

theorem diagonal_line_scenario:
  "fill (new_ImageDrawer (new_Image 10 10)) (ColorString ''#000000'')
     = (Returned, new_ImageDrawer \<lparr>width = 10, height = 10,
          buffer = concat (replicate 100 [0, 0, 0, 255])\<rparr>) \<and>
   drawLine (new_ImageDrawer \<lparr>width = 10, height = 10,
          buffer = concat (replicate 100 [0, 0, 0, 255])\<rparr>) (0, 0) (9, 9) (ColorString ''#FFFFFF'')
     = Some (Returned, new_ImageDrawer \<lparr>width = 10, height = 10,
          buffer = concat (map (\<lambda>i. if i mod 10 = i div 10 then [255, 255, 255, 255]
                                     else [0, 0, 0, 255]) [0..<100])\<rparr>)"
  by code_simp

text \<open>
  C10, as the claim states it, fails on a drawer that has writes pending, which a failed
  draw leaves behind: both methods end in \<^verbatim>\<open>this.flush()\<close>. After a line in the
  malformed color \<^verbatim>\<open>#F\<close> and a one-pixel line in \<^verbatim>\<open>#FFFFFF80\<close> (both throw in their
  flush), \<^verbatim>\<open>drawCircle\<close> with radius \<open>-1\<close> blends the pending pixel \<open>(0, 0)\<close> once more
  and throws as well.
\<close>

theorem negative_radius_flushes_pending:
  "drawLine (new_ImageDrawer (new_Image 2 2)) (0, 0) (1, 1) (ColorString ''#F'')
     = Some (Thrown InvalidColor, (new_ImageDrawer (new_Image 2 2))
          \<lparr>temporaryBuffer := [(0, ColorString ''#F''), (3, ColorString ''#F'')]\<rparr>) \<and>
   drawLine ((new_ImageDrawer (new_Image 2 2))
          \<lparr>temporaryBuffer := [(0, ColorString ''#F''), (3, ColorString ''#F'')]\<rparr>)
        (0, 0) (0, 0) (ColorString ''#FFFFFF80'')
     = Some (Thrown InvalidColor,
          (new_ImageDrawer \<lparr>width = 2, height = 2,
             buffer = [128, 128, 128, 64, 0, 0, 0, 0, 0, 0, 0, 0, 0, 0, 0, 0]\<rparr>)
          \<lparr>temporaryBuffer := [(0, ColorString ''#FFFFFF80''), (3, ColorString ''#F'')]\<rparr>) \<and>
   drawCircle ((new_ImageDrawer \<lparr>width = 2, height = 2,
             buffer = [128, 128, 128, 64, 0, 0, 0, 0, 0, 0, 0, 0, 0, 0, 0, 0]\<rparr>)
          \<lparr>temporaryBuffer := [(0, ColorString ''#FFFFFF80''), (3, ColorString ''#F'')]\<rparr>)
        (1, 1) (- 1) (ColorString ''#000000'')
     = (Thrown InvalidColor,
          (new_ImageDrawer \<lparr>width = 2, height = 2,
             buffer = [192, 192, 192, 128, 0, 0, 0, 0, 0, 0, 0, 0, 0, 0, 0, 0]\<rparr>)
          \<lparr>temporaryBuffer := [(0, ColorString ''#FFFFFF80''), (3, ColorString ''#F'')]\<rparr>) \<and>
   drawFilledCircle ((new_ImageDrawer \<lparr>width = 2, height = 2,
             buffer = [128, 128, 128, 64, 0, 0, 0, 0, 0, 0, 0, 0, 0, 0, 0, 0]\<rparr>)
          \<lparr>temporaryBuffer := [(0, ColorString ''#FFFFFF80''), (3, ColorString ''#F'')]\<rparr>)
        (1, 1) (- 1) (ColorString ''#000000'')
     = (Thrown InvalidColor,
          (new_ImageDrawer \<lparr>width = 2, height = 2,
             buffer = [192, 192, 192, 128, 0, 0, 0, 0, 0, 0, 0, 0, 0, 0, 0, 0]\<rparr>)
          \<lparr>temporaryBuffer := [(0, ColorString ''#FFFFFF80''), (3, ColorString ''#F'')]\<rparr>)"
  by code_simp

text \<open>
  C10, amended. With a negative radius the loop of \<^verbatim>\<open>drawCircle\<close> and of
  \<^verbatim>\<open>drawFilledCircle\<close> does not run, so nothing is staged and the call is the final
  \<^verbatim>\<open>flush\<close> alone; called with nothing pending, both return normally with the drawer,
  and so every byte of the buffer, exactly as before.
\<close>

theorem negative_radius_noop:
  assumes "radius < 0"
  shows "octant_loop (circle_points center color) 0 radius (3 - 2 * radius) d = d \<and>
         octant_loop (disc_spans center color) 0 radius (3 - 2 * radius) d = d \<and>
         drawCircle d center radius color = flush d \<and>
         drawFilledCircle d center radius color = flush d \<and>
         (temporaryBuffer d = [] \<longrightarrow>
            drawCircle d center radius color = (Returned, d) \<and>
            drawFilledCircle d center radius color = (Returned, d))"
  using assms
  by (simp add: octant_loop.simps drawCircle_def drawFilledCircle_def flush_def)

theorem negative_radius_noop_witness:
  "drawCircle (new_ImageDrawer (new_Image 2 2)) (1, 1) (- 1) (ColorString ''#FFFFFF'')
     = (Returned, new_ImageDrawer (new_Image 2 2)) \<and>
   drawFilledCircle (new_ImageDrawer (new_Image 2 2)) (1, 1) (- 1) (ColorString ''#FFFFFF'')
     = (Returned, new_ImageDrawer (new_Image 2 2))"
proof -
  have neg: "- 1 < (0 :: rat)" by simp
  have empty: "temporaryBuffer (new_ImageDrawer (new_Image 2 2)) = []"
    by (simp add: new_ImageDrawer_def)
  from negative_radius_noop [OF neg, of "(1, 1)" "ColorString ''#FFFFFF''" "new_ImageDrawer (new_Image 2 2)"]
    empty
  show ?thesis by blast
qed

text \<open>
  C7. \<^verbatim>\<open>drawPath\<close> and \<^verbatim>\<open>drawBezier\<close> leave with the error \<^verbatim>\<open>Invalid points\<close> exactly
  when they are given fewer than two points, whatever the state of the drawer; and then
  the drawer they leave is the one they were called on: nothing was staged, no byte of
  the buffer was written.
\<close>

theorem path_curve_InvalidPoints:
  "((\<exists>d'. drawPath d points color = Some (Thrown InvalidPoints, d')) \<longleftrightarrow> length points < 2) \<and>
   ((\<exists>d'. drawBezier d points color step = Some (Thrown InvalidPoints, d')) \<longleftrightarrow> length points < 2) \<and>
   (length points < 2 \<longrightarrow>
      drawPath d points color = Some (Thrown InvalidPoints, d) \<and>
      drawBezier d points color step = Some (Thrown InvalidPoints, d))"
proof -
  have short: "drawPath d points color = Some (Thrown InvalidPoints, d) \<and>
      drawBezier d points color step = Some (Thrown InvalidPoints, d)" if "length points < 2"
    using that by (simp add: drawPath_def drawBezier_def)
  have path: False if "\<not> length points < 2" "drawPath d points color = Some (Thrown InvalidPoints, d')" for d'
    using that
    by (auto simp: drawPath_def split: option.splits if_splits
        dest: path_loop_error flush_error_pair)
  have curve: False
    if "\<not> length points < 2" "drawBezier d points color step = Some (Thrown InvalidPoints, d')" for d'
    using that
    by (auto simp: drawBezier_def Let_def split: option.splits if_splits number.splits
        dest: bezier_loop_error flush_error_pair)
  from short path curve show ?thesis by blast
qed

theorem path_curve_InvalidPoints_witness:
  "drawPath (new_ImageDrawer (new_Image 2 2)) [(0, 0)] (ColorString ''#FF0000'')
     = Some (Thrown InvalidPoints, new_ImageDrawer (new_Image 2 2)) \<and>
   drawBezier (new_ImageDrawer (new_Image 2 2)) [(0, 0)] (ColorString ''#FF0000'') None
     = Some (Thrown InvalidPoints, new_ImageDrawer (new_Image 2 2)) \<and>
   (\<nexists>d'. drawPath (new_ImageDrawer (new_Image 2 2)) [(0, 0), (1, 1)] (ColorString ''red'')
     = Some (Thrown InvalidPoints, d'))"
proof -
  have 1: "length [(0, 0) :: Point] < 2" by simp
  have 2: "\<not> length [(0, 0), (1, 1) :: Point] < 2" by simp
  from path_curve_InvalidPoints [of "new_ImageDrawer (new_Image 2 2)" "[(0, 0)]" "ColorString ''#FF0000''" None] 1
    path_curve_InvalidPoints [of "new_ImageDrawer (new_Image 2 2)" "[(0, 0), (1, 1)]" "ColorString ''red''" None] 2
  show ?thesis by blast
qed

text \<open>
  C9. Every public drawing operation called with \<^verbatim>\<open>flushDisablers\<close> at 0 leaves it at
  0, whether it returns or throws: the only throw of a drawing operation on such a drawer
  comes out of a flush, and a flush that does anything runs at depth 0, after the
  matching \<^verbatim>\<open>flushDisablers--\<close>.
\<close>

theorem flushDisablers_restored:
  assumes "flushDisablers d = 0" and "run op d = Some r"
  shows "flushDisablers (snd r) = 0"
  using run_exit_state [OF assms] by simp

theorem flushDisablers_restored_witness:
  "\<exists>r. run (DrawPath [(0, 0), (1, 1)] (ColorString ''red'')) (new_ImageDrawer (new_Image 2 2)) = Some r \<and>
        fst r = Thrown InvalidColor \<and> flushDisablers (snd r) = 0"
proof -
  define r where "r = (Thrown InvalidColor, (new_ImageDrawer (new_Image 2 2))
      \<lparr>temporaryBuffer := [(0, ColorString ''red''), (3, ColorString ''red'')]\<rparr>)"
  have h1: "flushDisablers (new_ImageDrawer (new_Image 2 2)) = 0"
    by (simp add: new_ImageDrawer_def)
  have h2: "run (DrawPath [(0, 0), (1, 1)] (ColorString ''red'')) (new_ImageDrawer (new_Image 2 2)) = Some r"
    unfolding r_def by code_simp
  from flushDisablers_restored [OF h1 h2] h2 show ?thesis
    by (intro exI [of _ r]) (simp add: r_def)
qed

text \<open>
  C3, as the claim states it, fails on the error path: a color that does not normalize
  makes \<^verbatim>\<open>flush\<close> throw out of its loop, before \<^verbatim>\<open>temporaryBuffer.clear()\<close>, and the
  staged writes stay pending.
\<close>

theorem pending_writes_survive_error:
  "drawLine (new_ImageDrawer (new_Image 2 2)) (0, 0) (1, 1) (ColorString ''red'')
     = Some (Thrown InvalidColor, (new_ImageDrawer (new_Image 2 2))
          \<lparr>temporaryBuffer := [(0, ColorString ''red''), (3, ColorString ''red'')]\<rparr>)"
  by code_simp

text \<open>
  C3, amended. After every public drawing operation that is called with
  \<^verbatim>\<open>flushDisablers\<close> at 0 and returns normally, \<^verbatim>\<open>temporaryBuffer\<close> is empty.
\<close>

theorem pending_writes_empty_after_return:
  assumes "flushDisablers d = 0" and "run op d = Some (Returned, d')"
  shows "temporaryBuffer d' = []"
  using run_exit_state [OF assms] by simp

theorem pending_writes_empty_after_return_witness:
  "\<exists>d'. run (DrawLine (0, 0) (1, 1) (ColorString ''#FF0000''))
            ((new_ImageDrawer (new_Image 2 2))\<lparr>temporaryBuffer := [(2, ColorString ''#00FF00'')]\<rparr>)
          = Some (Returned, d') \<and> temporaryBuffer d' = []"
proof -
  define d' where "d' = new_ImageDrawer \<lparr>width = 2, height = 2,
      buffer = [255, 0, 0, 0, 0, 0, 0, 0, 0, 255, 0, 0, 255, 0, 0, 0]\<rparr>"
  have h1: "flushDisablers ((new_ImageDrawer (new_Image 2 2))\<lparr>temporaryBuffer := [(2, ColorString ''#00FF00'')]\<rparr>) = 0"
    by (simp add: new_ImageDrawer_def)
  have h2: "run (DrawLine (0, 0) (1, 1) (ColorString ''#FF0000''))
            ((new_ImageDrawer (new_Image 2 2))\<lparr>temporaryBuffer := [(2, ColorString ''#00FF00'')]\<rparr>)
          = Some (Returned, d')"
    unfolding d'_def by code_simp
  from pending_writes_empty_after_return [OF h1 h2] h2 show ?thesis
    by blast
qed

text \<open>
  C4. A drawing operation other than \<^verbatim>\<open>fill\<close>, called at the top level (nothing
  pending, \<^verbatim>\<open>flushDisablers\<close> at 0) with blending on and a color that normalizes,
  leaves every pixel of the buffer either as it was or as a single \<^verbatim>\<open>Image.add\<close> of
  that color on the image as it was before the operation makes it: however often the
  algorithm stages a pixel, it is blended at most once. And a path, with a point that has
  a predecessor given once or twice in a row, returns normally with the same drawer, so
  the same pixels, in both cases.
\<close>

theorem each_pixel_blended_at_most_once:
  assumes wf: "length (buffer (image d)) = width (image d) * height (image d) * 4"
    and top: "flushDisablers d = 0" "temporaryBuffer d = []"
    and bl: "blending d"
  shows "(run op d = Some r \<and> (\<forall>c. op \<noteq> Fill c) \<and> toColor (color_of op) = Inr cn \<longrightarrow>
            (\<forall>x y. x < width (image d) \<longrightarrow> y < height (image d) \<longrightarrow>
               Image_get (image (snd r)) (rat_of_nat x, rat_of_nat y)
                 = Image_get (image d) (rat_of_nat x, rat_of_nat y) \<or>
               (\<exists>img1. Image_add (image d) (rat_of_nat x, rat_of_nat y) (color_of op) = Inr img1 \<and>
                  Image_get (image (snd r)) (rat_of_nat x, rat_of_nat y)
                    = Image_get img1 (rat_of_nat x, rat_of_nat y)))) \<and>
         (pre \<noteq> [] \<and> toColor c = Inr cn' \<longrightarrow>
            (\<exists>d'. drawPath d (pre @ p # post) c = Some (Returned, d') \<and>
                  drawPath d (pre @ p # p # post) c = Some (Returned, d')))"
proof (intro conjI impI)
  assume "run op d = Some r \<and> (\<forall>c. op \<noteq> Fill c) \<and> toColor (color_of op) = Inr cn"
  then have run: "run op d = Some r" and shape: "\<forall>c. op \<noteq> Fill c"
    and col: "toColor (color_of op) = Inr cn"
    by simp_all
  from run_staged [OF top(1) run shape]
  consider "r = (Thrown InvalidPoints, d)" | ks where "r = flush (staged (color_of op) ks d)"
    by blast
  then have "Image_get (image (snd r)) (rat_of_nat x, rat_of_nat y)
              = Image_get (image d) (rat_of_nat x, rat_of_nat y) \<or>
            (\<exists>img1. Image_add (image d) (rat_of_nat x, rat_of_nat y) (color_of op) = Inr img1 \<and>
               Image_get (image (snd r)) (rat_of_nat x, rat_of_nat y)
                 = Image_get img1 (rat_of_nat x, rat_of_nat y))"
    if xy: "x < width (image d)" "y < height (image d)" for x y
  proof cases
    case 1
    then show ?thesis by simp
  next
    case 2
    from flush_staged_blend [OF wf top bl col, of ks] 2
    obtain d' where "r = (Returned, d')"
      and "\<And>x y. x < width (image d) \<Longrightarrow> y < height (image d) \<Longrightarrow>
              Image_get (image d') (rat_of_nat x, rat_of_nat y)
                = Image_get (image d) (rat_of_nat x, rat_of_nat y) \<or>
              Image_get (image d') (rat_of_nat x, rat_of_nat y)
                = stored (blend (Image_get (image d) (rat_of_nat x, rat_of_nat y)) cn)"
      by auto
    from this(2) [OF xy] this(1)
    have "Image_get (image (snd r)) (rat_of_nat x, rat_of_nat y)
                = Image_get (image d) (rat_of_nat x, rat_of_nat y) \<or>
              Image_get (image (snd r)) (rat_of_nat x, rat_of_nat y)
                = stored (blend (Image_get (image d) (rat_of_nat x, rat_of_nat y)) cn)"
      by simp
    with Image_add_get [OF wf xy col] show ?thesis by auto
  qed
  then show "\<forall>x y. x < width (image d) \<longrightarrow> y < height (image d) \<longrightarrow>
               Image_get (image (snd r)) (rat_of_nat x, rat_of_nat y)
                 = Image_get (image d) (rat_of_nat x, rat_of_nat y) \<or>
               (\<exists>img1. Image_add (image d) (rat_of_nat x, rat_of_nat y) (color_of op) = Inr img1 \<and>
                  Image_get (image (snd r)) (rat_of_nat x, rat_of_nat y)
                    = Image_get img1 (rat_of_nat x, rat_of_nat y))"
    by blast
next
  assume "pre \<noteq> [] \<and> toColor c = Inr cn'"
  then have pre: "pre \<noteq> []" and col: "toColor c = Inr cn'" by simp_all
  from pre have "2 \<le> length (pre @ p # post)"
    by (cases pre) simp_all
  from drawPath_staged [OF this, of "image d" "lineThickness d" c] top(1)
  obtain ks where path: "drawPath d (pre @ p # post) c = Some (flush (staged c ks d))"
    by blast
  from flush_staged_blend [OF wf top bl col, of ks]
  obtain d' where "flush (staged c ks d) = (Returned, d')" by blast
  with path drawPath_dup [OF top(1) pre, of p post c]
  show "\<exists>d'. drawPath d (pre @ p # post) c = Some (Returned, d') \<and>
             drawPath d (pre @ p # p # post) c = Some (Returned, d')"
    by simp
qed

theorem each_pixel_blended_at_most_once_witness:
  "\<exists>d'. run (DrawPath [(0, 0), (2, 2), (0, 2)] (ColorString ''#FF000080'')) (new_ImageDrawer (new_Image 3 3))
           = Some (Returned, d') \<and>
         drawPath (new_ImageDrawer (new_Image 3 3)) [(0, 0), (2, 2), (2, 2), (0, 2)] (ColorString ''#FF000080'')
           = Some (Returned, d') \<and>
         (\<exists>img1. Image_add (new_Image 3 3) (2, 2) (ColorString ''#FF000080'') = Inr img1 \<and>
            Image_get (image d') (2, 2) = Image_get img1 (2, 2)) \<and>
         Image_get (image d') (2, 0) = Image_get (new_Image 3 3) (2, 0)"
proof -
  define d where "d = new_ImageDrawer (new_Image 3 3)"
  define d' where "d' = new_ImageDrawer \<lparr>width = 3, height = 3, buffer =
          [128, 0, 0, 64, 0, 0, 0, 0, 0, 0, 0, 0,
           0, 0, 0, 0, 128, 0, 0, 64, 0, 0, 0, 0,
           128, 0, 0, 64, 128, 0, 0, 64, 128, 0, 0, 64]\<rparr>"
  define op where "op = DrawPath [(0, 0), (2, 2), (0, 2)] (ColorString ''#FF000080'')"
  have h: "length (buffer (image d)) = width (image d) * height (image d) * 4"
    "flushDisablers d = 0" "temporaryBuffer d = []" "blending d"
    by (simp_all add: d_def new_ImageDrawer_def new_Image_def)
  have c: "toColor (ColorString ''#FF000080'') = Inr (Fin 255, Fin 0, Fin 0, Fin 128)"
    by code_simp
  have run: "run op d = Some (Returned, d')"
    unfolding op_def d_def d'_def by code_simp
  have shape: "\<forall>c. op \<noteq> Fill c"
    by (simp add: op_def)
  have pre: "[(0, 0) :: Point] \<noteq> []" by simp
  note inst = each_pixel_blended_at_most_once [OF h, of op "(Returned, d')" _
      "[(0, 0)]" "ColorString ''#FF000080''" _ "(2, 2)" "[(0, 2)]"]
  from inst run shape c
  have 3: "\<And>x y. x < 3 \<Longrightarrow> y < 3 \<Longrightarrow>
              Image_get (image d') (rat_of_nat x, rat_of_nat y)
                = Image_get (new_Image 3 3) (rat_of_nat x, rat_of_nat y) \<or>
              (\<exists>img1. Image_add (new_Image 3 3) (rat_of_nat x, rat_of_nat y) (ColorString ''#FF000080'') = Inr img1 \<and>
                 Image_get (image d') (rat_of_nat x, rat_of_nat y)
                   = Image_get img1 (rat_of_nat x, rat_of_nat y))"
    by (auto simp: op_def d_def new_ImageDrawer_def new_Image_def)
  from inst pre c run
  have 2: "drawPath d [(0, 0), (2, 2), (2, 2), (0, 2)] (ColorString ''#FF000080'') = Some (Returned, d')"
    by (auto simp: op_def)
  have 4: "Image_get (image d') (2, 0) = Image_get (new_Image 3 3) (2, 0)"
    unfolding d'_def by code_simp
  have 5: "Image_get (image d') (2, 2) \<noteq> Image_get (new_Image 3 3) (2, 2)"
    unfolding d'_def by code_simp
  from 3 [of 2 2] 5 have "\<exists>img1. Image_add (new_Image 3 3) (2, 2) (ColorString ''#FF000080'') = Inr img1 \<and>
            Image_get (image d') (2, 2) = Image_get img1 (2, 2)"
    by simp
  with run 2 4 show ?thesis
    unfolding d_def op_def by blast
qed

end
